theory Spec2Isabelle
  imports Complex_Main "HOL-Library.Log_Nat"
begin

section \<open>Pixel buffers and Python primitives\<close>

text \<open>
  The transforms work on numpy arrays of unsigned 8-bit values.  A grey image is a
  two-dimensional array, an RGB image a three-dimensional one whose cells hold three
  channel values.  Values are kept as \<open>int\<close> (what \<open>tolist()\<close> and \<open>int(...)\<close> hand
  to the Python code); a cast to an unsigned dtype is written out as a remainder.
  The float arithmetic of the pixel kernels is carried out on exact reals: the rounding
  of the IEEE operations is not represented there.  The product \<open>args.factor * 10\<close> of
  the brightness and contrast scripts, whose integer part is stored, is the binary64
  product (section on Python floats below).
\<close>

datatype py_error = IndexError | ValueError | ZeroDivisionError | OverflowError | SystemExit int

type_synonym rgb = "int \<times> int \<times> int"

datatype image = GrayImage "int list list" | RGBImage "rgb list list"

datatype pixel = Gray int | RGB int int int

definition uint8 :: "int \<Rightarrow> int" where
  "uint8 v = v mod 256"

definition uint32 :: "int \<Rightarrow> int" where
  "uint32 v = v mod 2 ^ 32"

definition in_range :: "int \<Rightarrow> bool" where
  "in_range v = (0 \<le> v \<and> v \<le> 255)"

definition valid_gray :: "int list list \<Rightarrow> bool" where
  "valid_gray rows = list_all (list_all in_range) rows"

definition valid_rgb :: "rgb list list \<Rightarrow> bool" where
  "valid_rgb rows = list_all (list_all (\<lambda>(r, g, b). in_range r \<and> in_range g \<and> in_range b)) rows"

text \<open>\<open>int(x)\<close> on a float: truncation toward zero.\<close>

definition py_int :: "real \<Rightarrow> int" where
  "py_int x = (if x < 0 then \<lceil>x\<rceil> else \<lfloor>x\<rfloor>)"

text \<open>\<open>round\<close> of Python 3 on a float: to the nearest integer, a tie to the even one.\<close>

definition py_round :: "real \<Rightarrow> int" where
  "py_round x =
     (let f = \<lfloor>x\<rfloor>; d = x - real_of_int f
      in if d < 1 / 2 then f else if 1 / 2 < d then f + 1 else if even f then f else f + 1)"

text \<open>\<open>image_array.tolist()\<close>: a scalar per cell of a grey image, a list of channels
  per cell of an RGB image.\<close>

definition tolist :: "image \<Rightarrow> pixel list list" where
  "tolist img = (case img of
       GrayImage rows \<Rightarrow> map (map Gray) rows
     | RGBImage rows \<Rightarrow> map (map (\<lambda>(r, g, b). RGB r g b)) rows)"

text \<open>\<open>image_np.shape[:2]\<close>.\<close>

definition shape2 :: "image \<Rightarrow> nat \<times> nat" where
  "shape2 img = (case img of
       GrayImage rows \<Rightarrow> (length rows, (case rows of [] \<Rightarrow> 0 | r # _ \<Rightarrow> length r))
     | RGBImage rows \<Rightarrow> (length rows, (case rows of [] \<Rightarrow> 0 | r # _ \<Rightarrow> length r)))"


section \<open>Python floats\<close>

text \<open>A Python float is an IEEE 754 binary64 number: a finite value, an infinity or a
  NaN.  The sign of a zero is not kept (\<open>int(-0.0)\<close> is \<open>0\<close>).\<close>

datatype pyfloat = Finite real | PosInf | NegInf | NaN

text \<open>The binary exponent of a positive number \<open>x\<close>, the integer \<open>e\<close> with
  \<open>2^e \<le> x < 2^(e + 1)\<close>, from the bit length of an integer.\<close>

definition exponent2 :: "real \<Rightarrow> int" where
  "exponent2 x = (if 1 \<le> x then bitlen \<lfloor>x\<rfloor> - 1 else - bitlen (\<lceil>1 / x\<rceil> - 1))"

text \<open>The spacing of the binary64 numbers around \<open>x\<close>: 53 significant bits, and the
  least exponent -1022, below which the numbers are spaced by \<open>2^(-1074)\<close>.\<close>

definition ulp :: "real \<Rightarrow> real" where
  "ulp x = 2 powi (max (exponent2 \<bar>x\<bar>) (- 1022) - 52)"

text \<open>The binary64 result of an operation whose exact result is \<open>x\<close>: the nearest
  multiple of the spacing, a tie to the even multiple, and an infinity when this reaches
  \<open>2^1024\<close>.\<close>

definition round_double :: "real \<Rightarrow> pyfloat" where
  "round_double x =
     (if x = 0 then Finite 0
      else let y = real_of_int (py_round (x / ulp x)) * ulp x
           in if 2 ^ 1024 \<le> y then PosInf
              else if y \<le> - (2 ^ 1024) then NegInf
              else Finite y)"

text \<open>The reals that are binary64 numbers.\<close>

definition is_double :: "real \<Rightarrow> bool" where
  "is_double x = (round_double x = Finite x)"

text \<open>The product \<open>a * b\<close> of two floats.\<close>

fun fmul :: "pyfloat \<Rightarrow> pyfloat \<Rightarrow> pyfloat" where
  "fmul (Finite x) (Finite y) = round_double (x * y)"
| "fmul NaN b = NaN"
| "fmul a NaN = NaN"
| "fmul (Finite x) PosInf = (if x = 0 then NaN else if 0 < x then PosInf else NegInf)"
| "fmul (Finite x) NegInf = (if x = 0 then NaN else if 0 < x then NegInf else PosInf)"
| "fmul PosInf (Finite y) = (if y = 0 then NaN else if 0 < y then PosInf else NegInf)"
| "fmul NegInf (Finite y) = (if y = 0 then NaN else if 0 < y then NegInf else PosInf)"
| "fmul PosInf PosInf = PosInf"
| "fmul PosInf NegInf = NegInf"
| "fmul NegInf PosInf = NegInf"
| "fmul NegInf NegInf = PosInf"

text \<open>\<open>int(x)\<close> on a float value: truncation toward zero; an infinity raises
  \<open>OverflowError\<close>, a NaN raises \<open>ValueError\<close>.\<close>

fun int_of_float :: "pyfloat \<Rightarrow> py_error + int" where
  "int_of_float (Finite x) = Inr (py_int x)"
| "int_of_float PosInf = Inl OverflowError"
| "int_of_float NegInf = Inl OverflowError"
| "int_of_float NaN = Inl ValueError"


section \<open>HexCodec: \<open>compress\<close>\<close>

definition hexdigit :: "nat \<Rightarrow> char" where
  "hexdigit d = ''0123456789abcdef'' ! d"

function hex_digits :: "nat \<Rightarrow> string" where
  "hex_digits n = (if n < 16 then [hexdigit n] else hex_digits (n div 16) @ [hexdigit (n mod 16)])"
  by pat_completeness auto
termination
  by (relation "measure id") auto

declare hex_digits.simps [simp del]

text \<open>Python's \<open>hex\<close>: lower-case digits after \<open>0x\<close>, a leading minus sign for a
  negative number.\<close>

definition hex :: "int \<Rightarrow> string" where
  "hex v = (if v < 0 then ''-0x'' @ hex_digits (nat (- v)) else ''0x'' @ hex_digits (nat v))"

text \<open>\<open>str.zfill\<close>: zeros on the left up to the width, after a leading sign.\<close>

definition zfill :: "nat \<Rightarrow> string \<Rightarrow> string" where
  "zfill w s = (case s of
       [] \<Rightarrow> replicate w (CHR ''0'')
     | c # r \<Rightarrow> if c = CHR ''+'' \<or> c = CHR ''-''
                then c # replicate (w - length s) (CHR ''0'') @ r
                else replicate (w - length s) (CHR ''0'') @ s)"

text \<open>One pass of the body of the inner loop over the digits accumulated so far:
  a scalar cell is put in front as six digits, a channel list has its channels put in
  front one after the other, two digits each.\<close>

fun add_pixel :: "pixel \<Rightarrow> string \<Rightarrow> string" where
  "add_pixel (Gray v) hexValue = zfill 6 (drop 2 (hex v)) @ hexValue"
| "add_pixel (RGB c0 c1 c2) hexValue =
     fold (\<lambda>c h. zfill 2 (drop 2 (hex c)) @ h) [c0, c1, c2] hexValue"

text \<open>The inner loop \<open>for j in range(len(array_in[i]))\<close>, with the column index, the
  accumulator \<open>hexValue\<close> and the words of the row so far.\<close>

fun compress_loop :: "pixel list \<Rightarrow> nat \<Rightarrow> string \<Rightarrow> string list \<Rightarrow> string list" where
  "compress_loop [] j hexValue row = row"
| "compress_loop (p # ps) j hexValue row =
     (let hexValue' = add_pixel p hexValue in
      if j mod 10 = 9 then compress_loop ps (j + 1) [] (row @ [''0x'' @ hexValue'])
      else compress_loop ps (j + 1) hexValue' row)"

definition compress_row :: "pixel list \<Rightarrow> string list" where
  "compress_row ps = compress_loop ps 0 [] []"

definition compress :: "image \<Rightarrow> string list list" where
  "compress image_array = map compress_row (tolist image_array)"


subsection \<open>Reading the words back\<close>

text \<open>The digits one cell contributes to a word: six for a scalar, and for a channel
  list the two digits of channel 2, then of channel 1, then of channel 0.\<close>

fun pixel_digits :: "pixel \<Rightarrow> string" where
  "pixel_digits (Gray v) = zfill 6 (drop 2 (hex v))"
| "pixel_digits (RGB c0 c1 c2) =
     zfill 2 (drop 2 (hex c2)) @ zfill 2 (drop 2 (hex c1)) @ zfill 2 (drop 2 (hex c0))"

text \<open>The full groups of ten consecutive cells of a row, left to right; a shorter
  rest is no group.\<close>

fun groups10 :: "'a list \<Rightarrow> 'a list list" where
  "groups10 xs = (if length xs < 10 then [] else take 10 xs # groups10 (drop 10 xs))"

declare groups10.simps [simp del]

text \<open>The decoder that the round-trip property of the codec speaks of.  It is not part
  of the scripts; it is written here after the layout of a word: the prefix \<open>0x\<close>,
  then six digits per cell, the last cell of the group first.\<close>

definition hexval :: "char \<Rightarrow> nat" where
  "hexval c = length (takeWhile (\<lambda>d. d \<noteq> c) ''0123456789abcdef'')"

definition from_hex :: "string \<Rightarrow> nat" where
  "from_hex s = foldl (\<lambda>a c. 16 * a + hexval c) 0 s"

fun chunks6 :: "'a list \<Rightarrow> 'a list list" where
  "chunks6 xs = (if length xs < 6 then [] else take 6 xs # chunks6 (drop 6 xs))"

declare chunks6.simps [simp del]

definition unpack_cell :: "bool \<Rightarrow> string \<Rightarrow> pixel" where
  "unpack_cell is_rgb ds =
     (if is_rgb
      then RGB (int (from_hex (drop 4 ds))) (int (from_hex (take 2 (drop 2 ds))))
               (int (from_hex (take 2 ds)))
      else Gray (int (from_hex ds)))"

definition unpack_word :: "bool \<Rightarrow> string \<Rightarrow> pixel list" where
  "unpack_word is_rgb w = rev (map (unpack_cell is_rgb) (chunks6 (drop 2 w)))"

definition unpack_row :: "bool \<Rightarrow> string list \<Rightarrow> pixel list" where
  "unpack_row is_rgb ws = concat (map (unpack_word is_rgb) ws)"

definition is_rgb_image :: "image \<Rightarrow> bool" where
  "is_rgb_image img = (case img of GrayImage _ \<Rightarrow> False | RGBImage _ \<Rightarrow> True)"

definition decompress :: "bool \<Rightarrow> string list list \<Rightarrow> pixel list list" where
  "decompress is_rgb wss = map (unpack_row is_rgb) wss"

fun valid_pixel :: "pixel \<Rightarrow> bool" where
  "valid_pixel (Gray v) = in_range v"
| "valid_pixel (RGB c0 c1 c2) = (in_range c0 \<and> in_range c1 \<and> in_range c2)"

definition valid_image :: "image \<Rightarrow> bool" where
  "valid_image img = list_all (list_all valid_pixel) (tolist img)"


section \<open>Crop, hex-codec family: \<open>main\<close> of crop.py\<close>

datatype resolution = SD | HD | FHD | R4K

text \<open>The table \<open>sizes\<close> of the script, as (width, height).\<close>

fun sizes :: "resolution \<Rightarrow> int \<times> int" where
  "sizes SD = (640, 480)"
| "sizes HD = (1280, 720)"
| "sizes FHD = (1920, 1080)"
| "sizes R4K = (3840, 2160)"

record crop_envelope =
  c_original :: "string list list"
  info :: int

text \<open>The body of \<open>main\<close> after argument parsing and image loading: the dimension
  check that ends the process with status 1, then the envelope.\<close>

definition crop_main :: "resolution \<Rightarrow> int \<Rightarrow> int \<Rightarrow> image \<Rightarrow> py_error + crop_envelope" where
  "crop_main res crop_x crop_y image_np =
     (let (width, height) = sizes res;
          (actual_height, actual_width) = shape2 image_np
      in if int actual_width < crop_x + width \<or> int actual_height < crop_y + height
         then Inl (SystemExit 1)
         else Inr \<lparr>c_original = compress image_np,
                   info = crop_x * 2 ^ 24 + crop_y * 2 ^ 12\<rparr>)"


section \<open>Grayscale, raw-array family: \<open>rgb_to_grayscale\<close>\<close>

text \<open>A two-dimensional array is returned as it is; otherwise the weighted sum is
  formed on \<open>uint32\<close> arrays, floor-divided and cast to \<open>uint8\<close>.\<close>

definition rgb_to_grayscale :: "image \<Rightarrow> int list list" where
  "rgb_to_grayscale image_array = (case image_array of
       GrayImage rows \<Rightarrow> rows
     | RGBImage rows \<Rightarrow>
         map (map (\<lambda>(r, g, b).
           uint8 (uint32 (uint32 (uint32 (299 * uint32 r) + uint32 (587 * uint32 g))
                    + uint32 (114 * uint32 b)) div 1000))) rows)"


section \<open>Brightness and contrast, hex-codec family\<close>

text \<open>\<open>np.clip(x, 0, 255)\<close>.\<close>

definition clip :: "real \<Rightarrow> real \<Rightarrow> real \<Rightarrow> real" where
  "clip x lo hi = min (max x lo) hi"

definition map_values :: "(int \<Rightarrow> int) \<Rightarrow> image \<Rightarrow> image" where
  "map_values f img = (case img of
       GrayImage rows \<Rightarrow> GrayImage (map (map f) rows)
     | RGBImage rows \<Rightarrow> RGBImage (map (map (\<lambda>(r, g, b). (f r, f g, f b))) rows))"

text \<open>Element-wise: to float, times the factor, clipped, cast to \<open>uint8\<close>.\<close>

definition adjust_brightness :: "image \<Rightarrow> real \<Rightarrow> image" where
  "adjust_brightness image_array brightness_factor =
     map_values (\<lambda>v. uint8 (py_int (clip (real_of_int v * brightness_factor) 0 255))) image_array"

definition adjust_brightness_and_compress :: "image \<Rightarrow> real \<Rightarrow> string list list" where
  "adjust_brightness_and_compress image_array brightness_factor =
     compress (adjust_brightness image_array brightness_factor)"

text \<open>The three channels are treated alike, each around the mean \<open>int(128 * 1000)\<close>
  divided back by 1000.\<close>

definition adjust_contrast :: "rgb list list \<Rightarrow> real \<Rightarrow> rgb list list" where
  "adjust_contrast image_array contrast_factor =
     (let r_mean = (128 * 1000 :: int);
          adj = (\<lambda>v. uint8 (py_int (clip ((real_of_int v - real_of_int r_mean / 1000) * contrast_factor
                                             + real_of_int r_mean / 1000) 0 255)))
      in map (map (\<lambda>(r, g, b). (adj r, adj g, adj b))) image_array)"

definition adjust_contrast_and_compress :: "rgb list list \<Rightarrow> real \<Rightarrow> string list list" where
  "adjust_contrast_and_compress image_array contrast_factor =
     compress (RGBImage (adjust_contrast image_array contrast_factor))"

record factor_envelope =
  original :: "string list list"
  transformed :: "string list list"
  factor :: int

text \<open>The body of \<open>main\<close> after argument parsing and image loading.  \<open>args.factor\<close> is
  the float that \<open>argparse\<close> read; \<open>args.factor * 10\<close> is the product of two floats,
  rounded to binary64, and \<open>int\<close> cuts it to its integer part.  With an infinite or NaN
  factor the product is infinite or NaN and \<open>int\<close> raises, whatever the kernel has
  returned before; every exception ends in the handler, which exits with status 1.\<close>

definition brightness_main :: "image \<Rightarrow> pyfloat \<Rightarrow> py_error + factor_envelope" where
  "brightness_main image_np args_factor =
     (case args_factor of
        Finite f \<Rightarrow>
          (let compressed_original = compress image_np;
               compressed_transformed = adjust_brightness_and_compress image_np f
           in case int_of_float (fmul args_factor (Finite 10)) of
                Inl e \<Rightarrow> Inl (SystemExit 1)
              | Inr n \<Rightarrow> Inr \<lparr>original = compressed_original,
                                transformed = compressed_transformed,
                                factor = n\<rparr>)
      | _ \<Rightarrow> Inl (SystemExit 1))"

definition contrast_main :: "rgb list list \<Rightarrow> pyfloat \<Rightarrow> py_error + factor_envelope" where
  "contrast_main image_np args_factor =
     (case args_factor of
        Finite f \<Rightarrow>
          (let compressed_original = compress (RGBImage image_np);
               compressed_transformed = adjust_contrast_and_compress image_np f
           in case int_of_float (fmul args_factor (Finite 10)) of
                Inl e \<Rightarrow> Inl (SystemExit 1)
              | Inr n \<Rightarrow> Inr \<lparr>original = compressed_original,
                                transformed = compressed_transformed,
                                factor = n\<rparr>)
      | _ \<Rightarrow> Inl (SystemExit 1))"


section \<open>Box blur, hex-codec family: \<open>conv2d\<close> and \<open>blur_and_compress\<close>\<close>

text \<open>The array \<open>extended\<close>: zeros, with the cells of \<open>array\<close> copied in at the offset
  \<open>border_size\<close> in both directions.\<close>

definition extend_zeros :: "int list list \<Rightarrow> nat \<Rightarrow> nat \<Rightarrow> nat \<Rightarrow> int list list" where
  "extend_zeros array array_height array_width border_size =
     map (\<lambda>r. map (\<lambda>c.
            if border_size \<le> r \<and> r < border_size + array_height
               \<and> border_size \<le> c \<and> c < border_size + array_width
            then array ! (r - border_size) ! (c - border_size) else 0)
          [0..<array_width + border_size * 2])
       [0..<array_height + border_size * 2]"

text \<open>The two inner loops over the kernel, which add up \<open>conv_value\<close> for the output
  cell \<open>(i, j)\<close>.\<close>

definition conv_value :: "int list list \<Rightarrow> int list list \<Rightarrow> nat \<Rightarrow> nat \<Rightarrow> nat \<Rightarrow> nat \<Rightarrow> int" where
  "conv_value extended kern kernel_height kernel_width i j =
     (\<Sum>m\<leftarrow>[0..<kernel_height]. \<Sum>n\<leftarrow>[0..<kernel_width].
        extended ! (i + m) ! (j + n) * kern ! m ! n)"

definition clamp255 :: "int \<Rightarrow> int" where
  "clamp255 x = (if x > 255 then 255 else if x < 0 then 0 else x)"

text \<open>\<open>conv2d(array, kernel, weight)\<close> on two-dimensional numpy arrays.  \<open>array[0]\<close> and
  \<open>kernel[0]\<close> raise on an array without rows; a kernel wider than
  \<open>2 * border_size + 1\<close> reads \<open>extended\<close> out of range at the first output cell.  The
  sum is a numpy integer as soon as one product was added, and numpy's floor division by
  zero yields 0, as \<open>div\<close> does; with no product the sum is a Python integer, whose
  division by zero raises.  Rows shorter than the first do not occur in a numpy array.\<close>

definition conv2d :: "int list list \<Rightarrow> int list list \<Rightarrow> int \<Rightarrow> py_error + int list list" where
  "conv2d array kern weight =
     (case array of [] \<Rightarrow> Inl IndexError | row0 # _ \<Rightarrow>
      (case kern of [] \<Rightarrow> Inl IndexError | krow0 # _ \<Rightarrow>
        let array_height = length array; array_width = length row0;
            kernel_height = length kern; kernel_width = length krow0;
            border_size = kernel_height div 2;
            extended = extend_zeros array array_height array_width border_size
        in if \<not> list_all (\<lambda>r. array_width \<le> length r) array
              \<or> \<not> list_all (\<lambda>r. kernel_width \<le> length r) kern
           then Inl IndexError
           else if 0 < array_width \<and> border_size * 2 + 1 < kernel_width then Inl IndexError
           else if 0 < array_width \<and> kernel_width = 0 \<and> weight = 0 then Inl ZeroDivisionError
           else Inr (map (\<lambda>i. map (\<lambda>j.
                  clamp255 (conv_value extended kern kernel_height kernel_width i j div weight))
                  [0..<array_width]) [0..<array_height])))"

text \<open>\<open>np.rollaxis(image_array, axis=-1)\<close> gives the three channel planes, \<open>np.dstack\<close>
  puts three planes together again.\<close>

definition channel :: "nat \<Rightarrow> rgb list list \<Rightarrow> int list list" where
  "channel k rows = map (map (\<lambda>(r, g, b). if k = 0 then r else if k = 1 then g else b)) rows"

definition dstack :: "int list list \<Rightarrow> int list list \<Rightarrow> int list list \<Rightarrow> rgb list list" where
  "dstack rs gs bs = map (\<lambda>(r, g, b). zip r (zip g b)) (zip rs (zip gs bs))"

definition ones3 :: "int list list" where
  "ones3 = [[1, 1, 1], [1, 1, 1], [1, 1, 1]]"

text \<open>The image \<open>adjusted_image\<close> of \<open>blur_and_compress\<close>, before it is compressed.\<close>

definition blur_image :: "rgb list list \<Rightarrow> py_error + rgb list list" where
  "blur_image image_array =
     (case conv2d (channel 0 image_array) ones3 9 of Inl e \<Rightarrow> Inl e | Inr r_adjusted \<Rightarrow>
      (case conv2d (channel 1 image_array) ones3 9 of Inl e \<Rightarrow> Inl e | Inr g_adjusted \<Rightarrow>
       (case conv2d (channel 2 image_array) ones3 9 of Inl e \<Rightarrow> Inl e | Inr b_adjusted \<Rightarrow>
          Inr (dstack r_adjusted g_adjusted b_adjusted))))"

definition blur_and_compress :: "rgb list list \<Rightarrow> py_error + string list list" where
  "blur_and_compress image_array =
     (case blur_image image_array of Inl e \<Rightarrow> Inl e
      | Inr adjusted_image \<Rightarrow> Inr (compress (RGBImage adjusted_image)))"

text \<open>How many of the rows \<open>i - 1\<close>, \<open>i\<close>, \<open>i + 1\<close> lie inside an extent of \<open>n\<close>.\<close>

definition inside3 :: "nat \<Rightarrow> nat \<Rightarrow> int" where
  "inside3 n i = (if i = 0 then 0 else 1) + 1 + (if i + 1 < n then 1 else 0)"


section \<open>Indexing and sequencing\<close>

text \<open>A Python or numpy index into a sequence of \<open>n\<close> items: a negative index counts
  from the end, anything outside \<open>[-n, n)\<close> raises.\<close>

definition py_index :: "nat \<Rightarrow> int \<Rightarrow> py_error + nat" where
  "py_index n i =
     (if 0 \<le> i \<and> i < int n then Inr (nat i)
      else if - int n \<le> i \<and> i < 0 then Inr (nat (i + int n))
      else Inl IndexError)"

definition ebind :: "py_error + 'a \<Rightarrow> ('a \<Rightarrow> py_error + 'b) \<Rightarrow> py_error + 'b" where
  "ebind m f = (case m of Inl e \<Rightarrow> Inl e | Inr x \<Rightarrow> f x)"

definition py_get :: "'a list \<Rightarrow> int \<Rightarrow> py_error + 'a" where
  "py_get xs i = ebind (py_index (length xs) i) (\<lambda>k. Inr (xs ! k))"

text \<open>\<open>a[i][j]\<close> and \<open>a[i, j]\<close> on a two-dimensional array, read and write.\<close>

definition read2 :: "'a list list \<Rightarrow> int \<Rightarrow> int \<Rightarrow> py_error + 'a" where
  "read2 a i j = ebind (py_get a i) (\<lambda>row. py_get row j)"

definition write2 :: "'a list list \<Rightarrow> int \<Rightarrow> int \<Rightarrow> 'a \<Rightarrow> py_error + 'a list list" where
  "write2 a i j v =
     ebind (py_index (length a) i) (\<lambda>r.
     ebind (py_index (length (a ! r)) j) (\<lambda>c.
       Inr (a[r := (a ! r)[c := v]])))"

text \<open>Running a loop body over a list of indices, collecting the results, up to the first
  error.\<close>

fun traverse :: "('a \<Rightarrow> py_error + 'b) \<Rightarrow> 'a list \<Rightarrow> py_error + 'b list" where
  "traverse f [] = Inr []"
| "traverse f (x # xs) =
     (case f x of Inl e \<Rightarrow> Inl e
      | Inr y \<Rightarrow> (case traverse f xs of Inl e \<Rightarrow> Inl e | Inr ys \<Rightarrow> Inr (y # ys)))"

text \<open>The width of a two-dimensional array, from its first row.\<close>

definition width_of :: "'a list list \<Rightarrow> nat" where
  "width_of rows = (case rows of [] \<Rightarrow> 0 | r # _ \<Rightarrow> length r)"

text \<open>A two-dimensional numpy array is rectangular: \<open>h\<close> rows of \<open>w\<close> cells.\<close>

definition has_shape :: "nat \<Rightarrow> nat \<Rightarrow> 'a list list \<Rightarrow> bool" where
  "has_shape h w rows = (length rows = h \<and> list_all (\<lambda>row. length row = w) rows)"

text \<open>The offsets of the 3 by 3 neighbourhood, in the order in which the source reads
  them.\<close>

definition offsets :: "(int \<times> int) list" where
  "offsets = [(-1, -1), (-1, 0), (-1, 1), (0, -1), (0, 0), (0, 1), (1, -1), (1, 0), (1, 1)]"


section \<open>Box blur, raw-array family: \<open>apply_blur\<close>\<close>

text \<open>The nine reads of the unmodified source around \<open>(i, j)\<close>, each converted by
  \<open>int(...)\<close>, and their sum.\<close>

definition sum_val :: "int list list \<Rightarrow> int \<Rightarrow> int \<Rightarrow> py_error + int" where
  "sum_val image_array i j =
     ebind (traverse (\<lambda>(di, dj). read2 image_array (i + di) (j + dj)) offsets)
       (\<lambda>vs. Inr (sum_list vs))"

text \<open>The body of the inner loop: the rounded mean is stored in the \<open>uint8\<close> array
  \<open>blurred\<close>, read back, clamped and stored again.\<close>

definition blur_cell :: "int list list \<Rightarrow> int \<Rightarrow> int \<Rightarrow> int list list \<Rightarrow> py_error + int list list" where
  "blur_cell image_array i j blurred =
     ebind (sum_val image_array i j) (\<lambda>s.
     ebind (write2 blurred i j (uint8 (py_round (real_of_int s / 9)))) (\<lambda>blurred1.
     ebind (read2 blurred1 i j) (\<lambda>v.
       write2 blurred1 i j (uint8 (max 0 (min 255 v))))))"

fun blur_cols :: "int list list \<Rightarrow> int \<Rightarrow> int list \<Rightarrow> int list list \<Rightarrow> py_error + int list list" where
  "blur_cols image_array i [] blurred = Inr blurred"
| "blur_cols image_array i (j # js) blurred =
     ebind (blur_cell image_array i j blurred) (blur_cols image_array i js)"

fun blur_rows :: "int list list \<Rightarrow> int list \<Rightarrow> int list \<Rightarrow> int list list \<Rightarrow> py_error + int list list" where
  "blur_rows image_array [] js blurred = Inr blurred"
| "blur_rows image_array (i # is) js blurred =
     ebind (blur_cols image_array i js blurred) (blur_rows image_array is js)"

text \<open>\<open>apply_blur(image_array, blur_region)\<close>; \<open>range(a, b)\<close> is the list \<open>[a..b - 1]\<close>.\<close>

definition apply_blur :: "int list list \<Rightarrow> (int \<times> int \<times> int \<times> int) option \<Rightarrow> py_error + int list list" where
  "apply_blur image_array blur_region =
     (let height = int (length image_array); width = int (width_of image_array);
          (start_row, start_col, end_row, end_col) =
            (case blur_region of
               Some (start_row, start_col, blur_h, blur_w) \<Rightarrow>
                 (start_row, start_col, min (start_row + blur_h) (height - 1),
                  min (start_col + blur_w) (width - 1))
             | None \<Rightarrow> (1, 1, height - 1, width - 1))
      in blur_rows image_array [start_row..end_row - 1] [start_col..end_col - 1] image_array)"

text \<open>The sum of the 3 by 3 neighbourhood of \<open>(i, j)\<close> in an array of \<open>h\<close> rows and \<open>w\<close>
  columns when an index that leaves the array on one side comes back in on the other.\<close>

definition wrapped_sum :: "int list list \<Rightarrow> nat \<Rightarrow> nat \<Rightarrow> int \<Rightarrow> int \<Rightarrow> int" where
  "wrapped_sum a h w i j =
     (\<Sum>(di, dj)\<leftarrow>offsets. a ! nat ((i + di) mod int h) ! nat ((j + dj) mod int w))"

definition blur_value :: "int list list \<Rightarrow> nat \<Rightarrow> nat \<Rightarrow> int \<Rightarrow> int \<Rightarrow> int" where
  "blur_value a h w i j = uint8 (py_round (real_of_int (wrapped_sum a h w i j) / 9))"


section \<open>Resize, raw-array family: \<open>resize_image_bilinear\<close>\<close>

text \<open>The body of the inner loop for the output cell \<open>(i, j)\<close>.  The corner samples are
  taken as integers of unbounded width in the weighted sum (numpy promotes the \<open>uint8\<close>
  scalar in a product with a Python integer); the sum \<open>a + b + c + d\<close> of the fallback
  is a sum of \<open>uint8\<close> scalars and wraps.\<close>

definition resize_cell :: "int list list \<Rightarrow> int \<Rightarrow> int \<Rightarrow> int \<Rightarrow> int \<Rightarrow> int \<Rightarrow> int \<Rightarrow> py_error + int" where
  "resize_cell image_array height width new_height new_width i j =
     (let x_l = (if new_width > 1
                 then py_int (real_of_int ((width - 1) * j) / real_of_int (new_width - 1)) else 0);
          y_l = (if new_height > 1
                 then py_int (real_of_int ((height - 1) * i) / real_of_int (new_height - 1)) else 0);
          x_h = (if x_l * (new_width - 1) = (width - 1) * j then x_l else min (x_l + 1) (width - 1));
          y_h = (if y_l * (new_height - 1) = (height - 1) * i then y_l else min (y_l + 1) (height - 1))
      in ebind (read2 image_array y_l x_l) (\<lambda>a.
         ebind (read2 image_array y_l x_h) (\<lambda>b.
         ebind (read2 image_array y_h x_l) (\<lambda>c.
         ebind (read2 image_array y_h x_h) (\<lambda>d.
           let x_ratio_weighted =
                 (if new_width > 1
                  then (width - 1) * j - (new_width - 1) * ((width - 1) * j div (new_width - 1))
                  else 0);
               y_ratio_weighted =
                 (if new_height > 1
                  then (height - 1) * i - (new_height - 1) * ((height - 1) * i div (new_height - 1))
                  else 0);
               denom = (if new_width > 1 \<and> new_height > 1
                        then (new_width - 1) * (new_height - 1) else 1);
               s = a * (new_width - 1 - x_ratio_weighted) * (new_height - 1 - y_ratio_weighted)
                   + b * x_ratio_weighted * (new_height - 1 - y_ratio_weighted)
                   + c * y_ratio_weighted * (new_width - 1 - x_ratio_weighted)
                   + d * x_ratio_weighted * y_ratio_weighted;
               new_val = (if denom > 0 then py_round (real_of_int s / real_of_int denom)
                          else py_round (real_of_int (uint8 (uint8 (uint8 (a + b) + c) + d)) / 4))
           in Inr (uint8 (max 0 (min 255 new_val))))))))"

text \<open>\<open>np.zeros\<close> refuses a negative extent; the loops fill the rows of \<open>resized\<close> in
  order.\<close>

definition resize_image_bilinear :: "int list list \<Rightarrow> int \<Rightarrow> int \<Rightarrow> py_error + int list list" where
  "resize_image_bilinear image_array new_height new_width =
     (let height = int (length image_array); width = int (width_of image_array)
      in if new_height < 0 \<or> new_width < 0 then Inl ValueError
         else traverse (\<lambda>i. traverse (\<lambda>j.
                resize_cell image_array height width new_height new_width i j)
                [0..new_width - 1]) [0..new_height - 1])"


section \<open>Resize, hex-codec family: \<open>resize_image\<close>\<close>

text \<open>One channel of an output cell: the weighted sum of the four corners, halved, and
  cast to \<open>uint8\<close> by the assignment into the output array.\<close>

definition mix :: "real \<Rightarrow> int \<Rightarrow> int \<Rightarrow> int \<Rightarrow> int \<Rightarrow> int" where
  "mix weight a b c d =
     uint8 (py_int ((real_of_int a * weight + real_of_int b * weight
                     + real_of_int c * (1 - weight) + real_of_int d * (1 - weight)) / 2))"

definition mix_uniform :: "real \<Rightarrow> int \<Rightarrow> int \<Rightarrow> int \<Rightarrow> int \<Rightarrow> int" where
  "mix_uniform weight a b c d =
     uint8 (py_int ((real_of_int a * weight + real_of_int b * weight
                     + real_of_int c * weight + real_of_int d * weight) / 2))"

definition resize_pixel :: "rgb list list \<Rightarrow> bool \<Rightarrow> real \<Rightarrow> real \<Rightarrow> int \<Rightarrow> int \<Rightarrow> py_error + rgb" where
  "resize_pixel image_array special x_ratio y_ratio i j =
     (let x_l = py_int (real_of_int j * x_ratio);
          x_h = py_int (real_of_int j * x_ratio) + 1;
          y_l = py_int (real_of_int i * y_ratio);
          y_h = py_int (real_of_int i * y_ratio) + 1
      in ebind (read2 image_array y_l x_l) (\<lambda>(a0, a1, a2).
         ebind (read2 image_array y_l x_h) (\<lambda>(b0, b1, b2).
         ebind (read2 image_array y_h x_l) (\<lambda>(c0, c1, c2).
         ebind (read2 image_array y_h x_h) (\<lambda>(d0, d1, d2).
           if special
           then let weight = real_of_int (if i mod 2 = 0 then 2 else 1) / 3
                in Inr (mix weight a0 b0 c0 d0, mix weight a1 b1 c1 d1, mix weight a2 b2 c2 d2)
           else let weight = 1 / 2
                in Inr (mix_uniform weight a0 b0 c0 d0, mix_uniform weight a1 b1 c1 d1,
                        mix_uniform weight a2 b2 c2 d2))))))"

text \<open>The float divisions raise on a zero target extent before \<open>np.zeros\<close> is reached.\<close>

definition resize_image :: "rgb list list \<Rightarrow> int \<Rightarrow> int \<Rightarrow> py_error + rgb list list" where
  "resize_image image_array new_height new_width =
     (let height = int (length image_array); width = int (width_of image_array)
      in if new_width = 0 \<or> new_height = 0 then Inl ZeroDivisionError
         else if new_height < 0 \<or> new_width < 0 then Inl ValueError
         else let x_ratio = real_of_int width / real_of_int new_width;
                  y_ratio = real_of_int height / real_of_int new_height
              in traverse (\<lambda>i. traverse (\<lambda>j.
                   resize_pixel image_array (height = 720) x_ratio y_ratio i j)
                   [0..new_width - 1]) [0..new_height - 1])"


section \<open>Crop, raw-array family: \<open>apply_crop\<close>\<close>

text \<open>A slice \<open>xs[a:b]\<close> with integer bounds.\<close>

definition py_slice :: "'a list \<Rightarrow> int \<Rightarrow> int \<Rightarrow> 'a list" where
  "py_slice xs a b =
     (let n = int (length xs);
          norm = (\<lambda>k. if k < 0 then max (k + n) 0 else min k n);
          s = norm a; e = norm b
      in take (nat (e - s)) (drop (nat s) xs))"

definition apply_crop :: "int list list \<Rightarrow> int \<Rightarrow> int \<Rightarrow> int option \<Rightarrow> int option \<Rightarrow> resolution \<Rightarrow> int list list" where
  "apply_crop image_array crop_x crop_y crop_width crop_height res =
     (let height = int (length image_array); width = int (width_of image_array);
          (default_width, default_height) = sizes res;
          crop_width1 = (case crop_width of None \<Rightarrow> default_width | Some cw \<Rightarrow> cw);
          crop_height1 = (case crop_height of None \<Rightarrow> default_height | Some ch \<Rightarrow> ch);
          crop_width2 = min crop_width1 (width - crop_x);
          crop_height2 = min crop_height1 (height - crop_y)
      in map (\<lambda>row. py_slice row crop_x (crop_x + crop_width2))
           (py_slice image_array crop_y (crop_y + crop_height2)))"


section \<open>Properties\<close>

subsection \<open>Hexadecimal digits\<close>


lemma digit_cases:
  "d < 16 \<Longrightarrow> d = 0 \<or> d = 1 \<or> d = 2 \<or> d = 3 \<or> d = 4 \<or> d = 5 \<or> d = 6 \<or> d = 7
     \<or> d = 8 \<or> d = 9 \<or> d = 10 \<or> d = 11 \<or> d = 12 \<or> d = 13 \<or> d = 14 \<or> d = (15::nat)"
  by arith

lemma hexval_hexdigit_all:
  "list_all (\<lambda>d. hexval (hexdigit d) = d \<and> hexdigit d \<noteq> CHR ''+'' \<and> hexdigit d \<noteq> CHR ''-'')
     [0, 1, 2, 3, 4, 5, 6, 7, 8, 9, 10, 11, 12, 13, 14, 15]"
  by code_simp

lemma hexval_hexdigit: "d < 16 \<Longrightarrow> hexval (hexdigit d) = d"
  using hexval_hexdigit_all by (drule_tac digit_cases) (simp only: list_all_Cons_iff list_all_Nil_iff, blast)

lemma hexdigit_not_sign: "d < 16 \<Longrightarrow> hexdigit d \<noteq> CHR ''+'' \<and> hexdigit d \<noteq> CHR ''-''"
  using hexval_hexdigit_all by (drule_tac digit_cases) (simp only: list_all_Cons_iff list_all_Nil_iff, blast)

lemma hexval_zero: "hexval (CHR ''0'') = 0"
  by (simp add: hexval_def)

lemma from_hex_snoc: "from_hex (s @ [c]) = 16 * from_hex s + hexval c"
  by (simp add: from_hex_def)

lemma from_hex_hex_digits: "from_hex (hex_digits n) = n"
proof (induction n rule: hex_digits.induct)
  case (1 n)
  show ?case
  proof (cases "n < 16")
    case True
    then show ?thesis
      by (subst hex_digits.simps) (simp add: from_hex_def hexval_hexdigit)
  next
    case False
    with 1 have "from_hex (hex_digits (n div 16)) = n div 16" by simp
    with False show ?thesis
      by (subst hex_digits.simps) (simp add: from_hex_snoc hexval_hexdigit)
  qed
qed

lemma from_hex_zeros: "from_hex (replicate k (CHR ''0'') @ s) = from_hex s"
proof -
  have "foldl (\<lambda>a c. 16 * a + hexval c) 0 (replicate k (CHR ''0'')) = 0"
    by (induction k) (simp_all add: hexval_zero)
  then show ?thesis by (simp add: from_hex_def)
qed

lemma length_hex_digits_256: "n < 256 \<Longrightarrow> length (hex_digits n) \<le> 2"
proof -
  assume n: "n < 256"
  show ?thesis
  proof (cases "n < 16")
    case True
    then show ?thesis by (subst hex_digits.simps) simp
  next
    case False
    from n have "n div 16 < 16" by simp
    then have "hex_digits (n div 16) = [hexdigit (n div 16)]"
      by (subst hex_digits.simps) simp
    with False show ?thesis by (subst hex_digits.simps) simp
  qed
qed

lemma hex_digits_head: "\<exists>d r. d < 16 \<and> hex_digits n = hexdigit d # r"
proof (induction n rule: hex_digits.induct)
  case (1 n)
  show ?case
  proof (cases "n < 16")
    case True
    then show ?thesis by (subst hex_digits.simps) auto
  next
    case False
    with 1 obtain d r where "d < 16" "hex_digits (n div 16) = hexdigit d # r" by auto
    with False show ?thesis by (subst hex_digits.simps) auto
  qed
qed

text \<open>For a value in range, the digits after the prefix, filled to a width of at least two.\<close>

lemma zfill_hex_in_range:
  assumes "in_range v" "2 \<le> w"
  shows "zfill w (drop 2 (hex v)) = replicate (w - length (hex_digits (nat v))) (CHR ''0'') @ hex_digits (nat v)"
    and "length (zfill w (drop 2 (hex v))) = w"
    and "from_hex (zfill w (drop 2 (hex v))) = nat v"
proof -
  from assms have v: "0 \<le> v" "nat v < 256" by (auto simp: in_range_def)
  obtain d r where d: "d < 16" "hex_digits (nat v) = hexdigit d # r"
    using hex_digits_head by blast
  have h: "drop 2 (hex v) = hex_digits (nat v)"
    using v by (simp add: hex_def)
  show z: "zfill w (drop 2 (hex v)) = replicate (w - length (hex_digits (nat v))) (CHR ''0'') @ hex_digits (nat v)"
    unfolding h using d hexdigit_not_sign [OF d(1)] by (simp add: zfill_def)
  from length_hex_digits_256 [OF v(2)] assms(2)
  show "length (zfill w (drop 2 (hex v))) = w"
    unfolding z by simp
  show "from_hex (zfill w (drop 2 (hex v))) = nat v"
    unfolding z by (simp add: from_hex_zeros from_hex_hex_digits)
qed

lemma length_pixel_digits: "valid_pixel p \<Longrightarrow> length (pixel_digits p) = 6"
  by (cases p) (simp_all add: zfill_hex_in_range(2))

lemma unpack_cell_gray: "in_range v \<Longrightarrow> unpack_cell False (pixel_digits (Gray v)) = Gray v"
  by (simp add: unpack_cell_def zfill_hex_in_range(3) in_range_def)

lemma unpack_cell_rgb:
  assumes "in_range c0" "in_range c1" "in_range c2"
  shows "unpack_cell True (pixel_digits (RGB c0 c1 c2)) = RGB c0 c1 c2"
  using assms
  by (simp add: unpack_cell_def zfill_hex_in_range(2) zfill_hex_in_range(3) in_range_def)

lemma add_pixel_digits: "add_pixel p h = pixel_digits p @ h"
  by (cases p) simp_all

subsection \<open>The words of a row\<close>



lemma groups10_short: "length xs < 10 \<Longrightarrow> groups10 xs = []"
  by (subst groups10.simps) simp

lemma groups10_full: "length g = 10 \<Longrightarrow> groups10 (g @ xs) = g # groups10 xs"
  by (subst groups10.simps) simp

lemma compress_loop_groups:
  "length cur = j mod 10 \<Longrightarrow>
     compress_loop ps j (concat (map pixel_digits (rev cur))) row
       = row @ map (\<lambda>g. ''0x'' @ concat (map pixel_digits (rev g))) (groups10 (cur @ ps))"
proof (induction ps arbitrary: j cur row)
  case Nil
  then have "length cur < 10" by simp
  then show ?case by (simp add: groups10_short)
next
  case (Cons p ps)
  have step: "add_pixel p (concat (map pixel_digits (rev cur)))
                = concat (map pixel_digits (rev (cur @ [p])))"
    by (simp add: add_pixel_digits)
  show ?case
  proof (cases "j mod 10 = 9")
    case True
    with Cons.prems have len: "length (cur @ [p]) = 10" by simp
    have "(j + 1) mod 10 = 0" using True by presburger
    then have "length ([]::pixel list) = (j + 1) mod 10" by simp
    from Cons.IH [OF this, of "row @ [''0x'' @ concat (map pixel_digits (rev (cur @ [p])))]"]
    have "compress_loop ps (j + 1) [] (row @ [''0x'' @ concat (map pixel_digits (rev (cur @ [p])))])
            = row @ [''0x'' @ concat (map pixel_digits (rev (cur @ [p])))]
                @ map (\<lambda>g. ''0x'' @ concat (map pixel_digits (rev g))) (groups10 ps)"
      by simp
    moreover have "groups10 (cur @ p # ps) = (cur @ [p]) # groups10 ps"
      using groups10_full [OF len, of ps] by simp
    ultimately show ?thesis
      using True step by (simp add: Let_def)
  next
    case False
    with Cons.prems have "length (cur @ [p]) = (j + 1) mod 10"
      by (simp add: mod_Suc)
    from Cons.IH [OF this, of row]
    show ?thesis
      using False step by (simp add: Let_def)
  qed
qed

lemma compress_row_groups:
  "compress_row ps = map (\<lambda>g. ''0x'' @ concat (map pixel_digits (rev g))) (groups10 ps)"
  using compress_loop_groups [of "[]" 0 ps "[]"] by (simp add: compress_row_def)

lemma length_groups10: "length (groups10 xs) = length xs div 10"
proof (induction xs rule: groups10.induct)
  case (1 xs)
  show ?case
  proof (cases "length xs < 10")
    case True
    then show ?thesis by (simp add: groups10_short)
  next
    case False
    with 1 have "length (groups10 (drop 10 xs)) = (length xs - 10) div 10" by simp
    with False show ?thesis
      by (subst groups10.simps) (simp add: le_div_geq)
  qed
qed

lemma concat_groups10: "concat (groups10 xs) = take (10 * (length xs div 10)) xs"
proof (induction xs rule: groups10.induct)
  case (1 xs)
  show ?case
  proof (cases "length xs < 10")
    case True
    then show ?thesis by (simp add: groups10_short)
  next
    case False
    then have d: "length xs div 10 = Suc ((length xs - 10) div 10)"
      by (simp add: le_div_geq)
    from False 1 have "concat (groups10 (drop 10 xs))
        = take (10 * ((length xs - 10) div 10)) (drop 10 xs)" by simp
    then have "concat (groups10 xs) = take 10 xs @ take (10 * ((length xs - 10) div 10)) (drop 10 xs)"
      using False by (subst groups10.simps) simp
    also have "\<dots> = take (10 + 10 * ((length xs - 10) div 10)) xs"
      by (simp add: take_add)
    finally show ?thesis using d by simp
  qed
qed

lemma groups10_take: "groups10 (take (10 * (length xs div 10)) xs) = groups10 xs"
proof (induction xs rule: groups10.induct)
  case (1 xs)
  show ?case
  proof (cases "length xs < 10")
    case True
    then show ?thesis by (simp add: groups10_short)
  next
    case False
    then have d: "length xs div 10 = Suc ((length xs - 10) div 10)"
      by (simp add: le_div_geq)
    let ?k = "(length xs - 10) div 10"
    have t: "take (10 * (length xs div 10)) xs = take 10 xs @ take (10 * ?k) (drop 10 xs)"
      unfolding d by (simp add: take_add [symmetric])
    have l: "length (take 10 xs) = 10" using False by simp
    from False 1 have ih: "groups10 (take (10 * ?k) (drop 10 xs)) = groups10 (drop 10 xs)"
      by simp
    have "groups10 (take (10 * (length xs div 10)) xs) = take 10 xs # groups10 (drop 10 xs)"
      unfolding t using groups10_full [OF l] ih by simp
    also have "\<dots> = groups10 xs"
      using False by (subst (2) groups10.simps) simp
    finally show ?thesis .
  qed
qed

lemma groups10_set_length: "g \<in> set (groups10 xs) \<Longrightarrow> length g = 10 \<and> set g \<subseteq> set xs"
proof (induction xs rule: groups10.induct)
  case (1 xs)
  show ?case
  proof (cases "length xs < 10")
    case True
    with 1(2) show ?thesis by (simp add: groups10_short)
  next
    case False
    from 1(2) False have "g = take 10 xs \<or> g \<in> set (groups10 (drop 10 xs))"
      by (subst (asm) groups10.simps) simp
    then show ?thesis
    proof
      assume "g = take 10 xs"
      with False show ?thesis by (auto dest: in_set_takeD)
    next
      assume "g \<in> set (groups10 (drop 10 xs))"
      with 1(1) False have "length g = 10 \<and> set g \<subseteq> set (drop 10 xs)" by simp
      then show ?thesis by (auto dest: in_set_dropD)
    qed
  qed
qed

lemma chunks6_concat:
  "\<forall>x\<in>set xs. length (f x) = 6 \<Longrightarrow> chunks6 (concat (map f xs)) = map f xs"
proof (induction xs)
  case Nil
  then show ?case by (subst chunks6.simps) simp
next
  case (Cons x xs)
  then have "length (f x) = 6" and ih: "chunks6 (concat (map f xs)) = map f xs" by simp_all
  then show ?case by (subst chunks6.simps) simp
qed

lemma segment_of_concat:
  "\<forall>x\<in>set xs. length (f x) = n \<Longrightarrow> j < length xs \<Longrightarrow>
     take n (drop (n * j) (concat (map f xs))) = f (xs ! j)"
proof (induction xs arbitrary: j)
  case Nil
  then show ?case by simp
next
  case (Cons x xs)
  show ?case
  proof (cases j)
    case 0
    with Cons.prems show ?thesis by simp
  next
    case (Suc k)
    with Cons.prems have "take n (drop (n * k) (concat (map f xs))) = f (xs ! k)"
      by (intro Cons.IH) simp_all
    moreover have "length (f x) = n" using Cons.prems by simp
    ultimately show ?thesis using Suc by simp
  qed
qed

lemma unpack_word_group:
  assumes "\<forall>p\<in>set g. valid_pixel p \<and> unpack_cell is_rgb (pixel_digits p) = p"
  shows "unpack_word is_rgb (''0x'' @ concat (map pixel_digits (rev g))) = g"
proof -
  have "\<forall>p\<in>set (rev g). length (pixel_digits p) = 6"
    using assms by (simp add: length_pixel_digits)
  then have "chunks6 (concat (map pixel_digits (rev g))) = map pixel_digits (rev g)"
    by (rule chunks6_concat)
  then have "unpack_word is_rgb (''0x'' @ concat (map pixel_digits (rev g)))
               = map (\<lambda>p. unpack_cell is_rgb (pixel_digits p)) g"
    by (simp add: unpack_word_def rev_map o_def)
  also have "\<dots> = map (\<lambda>p. p) g"
    using assms by (intro map_cong) simp_all
  finally show ?thesis by simp
qed

lemma unpack_row_compress_row:
  assumes "\<forall>p\<in>set ps. valid_pixel p \<and> unpack_cell is_rgb (pixel_digits p) = p"
  shows "unpack_row is_rgb (compress_row ps) = take (10 * (length ps div 10)) ps"
proof -
  have "map (unpack_word is_rgb) (compress_row ps) = groups10 ps"
    unfolding compress_row_groups map_map
  proof (rule map_idI)
    fix g assume "g \<in> set (groups10 ps)"
    then have "set g \<subseteq> set ps" by (simp add: groups10_set_length)
    with assms have "\<forall>p\<in>set g. valid_pixel p \<and> unpack_cell is_rgb (pixel_digits p) = p"
      by blast
    then show "(unpack_word is_rgb \<circ> (\<lambda>g. ''0x'' @ concat (map pixel_digits (rev g)))) g = g"
      unfolding o_apply by (rule unpack_word_group)
  qed
  then show ?thesis
    by (simp add: unpack_row_def concat_groups10)
qed

lemma unpack_cell_pixel_digits:
  "valid_pixel p \<Longrightarrow>
     unpack_cell (case p of Gray _ \<Rightarrow> False | RGB _ _ _ \<Rightarrow> True) (pixel_digits p) = p"
  by (cases p) (simp_all add: unpack_cell_gray unpack_cell_rgb del: pixel_digits.simps)

lemma valid_image_row:
  assumes "valid_image img" "row \<in> set (tolist img)"
  shows "\<forall>p\<in>set row. valid_pixel p \<and> unpack_cell (is_rgb_image img) (pixel_digits p) = p"
proof
  fix p assume p: "p \<in> set row"
  with assms have v: "valid_pixel p"
    by (auto simp: valid_image_def list_all_iff)
  have "(case p of Gray _ \<Rightarrow> False | RGB _ _ _ \<Rightarrow> True) = is_rgb_image img"
    using assms(2) p by (cases img) (auto simp: tolist_def is_rgb_image_def)
  with unpack_cell_pixel_digits [OF v] v
  show "valid_pixel p \<and> unpack_cell (is_rgb_image img) (pixel_digits p) = p"
    by simp
qed

lemma compress_row_take: "compress_row (take (10 * (length ps div 10)) ps) = compress_row ps"
  by (simp add: compress_row_groups groups10_take)

subsection \<open>Round trip of the codec\<close>

text \<open>
  C1: for every row of a valid image, of width \<open>10k + r\<close> with \<open>r < 10\<close>, \<open>compress\<close>
  emits exactly \<open>k\<close> words for that row; decoding them gives back the first \<open>10k\<close>
  cells of the row, which is the whole row when \<open>r = 0\<close>; and the words are those of the
  row cut to its first \<open>10k\<close> cells, so the last \<open>r\<close> cells leave no trace.  The
  model of \<open>compress\<close> is a total function: nothing is raised on the way.
\<close>

theorem hexcodec_roundtrip:
  assumes "valid_image img" and "i < length (tolist img)"
    and "length (tolist img ! i) = 10 * k + r" and "r < 10"
  shows "length (compress img ! i) = k
     \<and> decompress (is_rgb_image img) (compress img) ! i = take (10 * k) (tolist img ! i)
     \<and> (r = 0 \<longrightarrow> decompress (is_rgb_image img) (compress img) ! i = tolist img ! i)
     \<and> compress img ! i = compress_row (take (10 * k) (tolist img ! i))"
proof -
  let ?row = "tolist img ! i"
  from assms(3,4) have k: "length ?row div 10 = k" by simp
  have c: "compress img ! i = compress_row ?row"
    using assms(2) by (simp add: compress_def)
  have "?row \<in> set (tolist img)" using assms(2) by simp
  from valid_image_row [OF assms(1) this]
  have u: "unpack_row (is_rgb_image img) (compress_row ?row) = take (10 * k) ?row"
    using k by (simp add: unpack_row_compress_row)
  have d: "decompress (is_rgb_image img) (compress img) ! i
             = unpack_row (is_rgb_image img) (compress_row ?row)"
    using assms(2) by (simp add: decompress_def compress_def)
  have "length (compress_row ?row) = k"
    using k by (simp add: compress_row_groups length_groups10)
  moreover have "compress_row (take (10 * k) ?row) = compress_row ?row"
    using compress_row_take [of ?row] k by simp
  moreover have "r = 0 \<longrightarrow> take (10 * k) ?row = ?row"
    using assms(3) by simp
  ultimately show ?thesis
    using c d u by simp
qed

theorem hexcodec_roundtrip_witness:
  "valid_image (GrayImage [[1, 2, 3, 4, 5, 6, 7, 8, 9, 10, 11, 12]])
   \<and> (0::nat) < length (tolist (GrayImage [[1, 2, 3, 4, 5, 6, 7, 8, 9, 10, 11, 12]]))
   \<and> length (tolist (GrayImage [[1, 2, 3, 4, 5, 6, 7, 8, 9, 10, 11, 12]]) ! 0) = 10 * 1 + 2
   \<and> (2::nat) < 10
   \<and> length (compress (GrayImage [[1, 2, 3, 4, 5, 6, 7, 8, 9, 10, 11, 12]]) ! 0) = 1
   \<and> decompress False (compress (GrayImage [[1, 2, 3, 4, 5, 6, 7, 8, 9, 10, 11, 12]])) ! 0
       = map Gray [1, 2, 3, 4, 5, 6, 7, 8, 9, 10]"
proof -
  let ?img = "GrayImage [[1, 2, 3, 4, 5, 6, 7, 8, 9, 10, 11, 12]]"
  have v: "valid_image ?img"
    by (simp add: valid_image_def tolist_def in_range_def)
  have i: "(0::nat) < length (tolist ?img)"
    by (simp add: tolist_def)
  have l: "length (tolist ?img ! 0) = 10 * 1 + 2"
    by (simp add: tolist_def)
  have r: "(2::nat) < 10" by simp
  note th = hexcodec_roundtrip [OF v i l r]
  from th have a: "length (compress ?img ! 0) = 1" by blast
  from th have "decompress (is_rgb_image ?img) (compress ?img) ! 0 = take (10 * 1) (tolist ?img ! 0)"
    by blast
  moreover have "is_rgb_image ?img = False" by (simp add: is_rgb_image_def)
  moreover have "take (10 * 1) (tolist ?img ! 0) = map Gray [1, 2, 3, 4, 5, 6, 7, 8, 9, 10]"
    by (simp add: tolist_def)
  ultimately have b: "decompress False (compress ?img) ! 0 = map Gray [1, 2, 3, 4, 5, 6, 7, 8, 9, 10]"
    by simp
  from v i l r a b show ?thesis by blast
qed

subsection \<open>Layout of a word\<close>

lemma groups10_nth:
  "k < length xs div 10 \<Longrightarrow> groups10 xs ! k = take 10 (drop (10 * k) xs)"
proof (induction k arbitrary: xs)
  case 0
  then have "\<not> length xs < 10" by simp
  then show ?case by (subst groups10.simps) simp
next
  case (Suc k)
  then have l: "\<not> length xs < 10" by simp
  then have "length xs div 10 = Suc ((length xs - 10) div 10)"
    by (simp add: le_div_geq)
  with Suc.prems have "k < length (drop 10 xs) div 10" by simp
  from Suc.IH [OF this] have "groups10 (drop 10 xs) ! k = take 10 (drop (10 * k) (drop 10 xs))" .
  moreover have "groups10 xs ! Suc k = groups10 (drop 10 xs) ! k"
    using l by (subst groups10.simps) simp
  ultimately show ?case by (simp add: add.commute)
qed

lemma compress_row_nth:
  assumes "k < length ps div 10"
  shows "compress_row ps ! k = ''0x'' @ concat (map pixel_digits (rev (take 10 (drop (10 * k) ps))))"
proof -
  have "k < length (groups10 ps)" using assms by (simp add: length_groups10)
  then have "compress_row ps ! k = ''0x'' @ concat (map pixel_digits (rev (groups10 ps ! k)))"
    by (simp add: compress_row_groups)
  then show ?thesis using assms by (simp add: groups10_nth)
qed

lemma length_concat_digits:
  "\<forall>p\<in>set g. valid_pixel p \<Longrightarrow> length (concat (map pixel_digits g)) = 6 * length g"
  by (induction g) (simp_all add: length_pixel_digits del: pixel_digits.simps)

lemma pixel_digits_rgb_segments:
  assumes "in_range c0" "in_range c1" "in_range c2"
  shows "take 2 (pixel_digits (RGB c0 c1 c2)) = zfill 2 (drop 2 (hex c2))"
    and "take 2 (drop 2 (pixel_digits (RGB c0 c1 c2))) = zfill 2 (drop 2 (hex c1))"
    and "drop 4 (pixel_digits (RGB c0 c1 c2)) = zfill 2 (drop 2 (hex c0))"
  using assms by (simp_all add: zfill_hex_in_range(2))

lemma pixel_digits_values:
  assumes "valid_pixel p"
  shows "case p of
           Gray v \<Rightarrow> int (from_hex (pixel_digits p)) = v
         | RGB c0 c1 c2 \<Rightarrow>
             int (from_hex (take 2 (pixel_digits p))) = c2
             \<and> int (from_hex (take 2 (drop 2 (pixel_digits p)))) = c1
             \<and> int (from_hex (drop 4 (pixel_digits p))) = c0"
proof (cases p)
  case (Gray v)
  with assms show ?thesis
    by (simp add: zfill_hex_in_range(3) in_range_def)
next
  case (RGB c0 c1 c2)
  with assms have c: "in_range c0" "in_range c1" "in_range c2" by simp_all
  have "int (from_hex (take 2 (pixel_digits (RGB c0 c1 c2)))) = c2"
    using c by (simp only: pixel_digits_rgb_segments) (simp add: zfill_hex_in_range(3) in_range_def)
  moreover have "int (from_hex (take 2 (drop 2 (pixel_digits (RGB c0 c1 c2))))) = c1"
    using c by (simp only: pixel_digits_rgb_segments) (simp add: zfill_hex_in_range(3) in_range_def)
  moreover have "int (from_hex (drop 4 (pixel_digits (RGB c0 c1 c2)))) = c0"
    using c by (simp only: pixel_digits_rgb_segments) (simp add: zfill_hex_in_range(3) in_range_def)
  ultimately show ?thesis using RGB by simp
qed

text \<open>
  C2 (as stated): the claim puts the first cell of a group in the most significant digits
  of the word and the tenth in the least significant.  For the ten grey cells 1, ..., 10
  the word ends with the digits of cell 1 and starts, after the prefix, with those of
  cell 10.
\<close>

theorem hexword_order_counterexample:
  "compress_row [Gray 1, Gray 2, Gray 3, Gray 4, Gray 5, Gray 6, Gray 7, Gray 8, Gray 9, Gray 10]
     = [''0x00000a000009000008000007000006000005000004000003000002000001'']
   \<and> compress_row [Gray 1, Gray 2, Gray 3, Gray 4, Gray 5, Gray 6, Gray 7, Gray 8, Gray 9, Gray 10]
     \<noteq> [''0x00000100000200000300000400000500000600000700000800000900000a'']"
  by code_simp

text \<open>
  C2 (amended): every word that \<open>compress\<close> emits packs one group of exactly ten
  consecutive cells of a row: word \<open>k\<close> of row \<open>r\<close> packs the cells \<open>10k\<close>, ...,
  \<open>10k + 9\<close> of that row and nothing else, whatever the width of the row.  For cells
  with values in [0,255] the word is the prefix \<open>0x\<close> followed by 60 digits, the digits
  of the cells in reverse order of arrival: cell \<open>i\<close> of the group (counted from 0)
  fills the six digits at offset \<open>6 * (9 - i)\<close> after the prefix, so the first cell has
  the least significant digits and the tenth the most significant.  The six digits of a
  scalar cell are its value, zero-padded; those of an RGB cell are three two-digit
  segments, channel 2 first, then channel 1, then channel 0.
\<close>

theorem hexword_layout:
  assumes "valid_image img" and "r < length (tolist img)"
    and "k < length (tolist img ! r) div 10"
  shows "length (compress img ! r) = length (tolist img ! r) div 10
     \<and> compress img ! r ! k
         = ''0x'' @ concat (map pixel_digits (rev (take 10 (drop (10 * k) (tolist img ! r)))))
     \<and> length (compress img ! r ! k) = 62
     \<and> (\<forall>i<10. let seg = take 6 (drop (2 + 6 * (9 - i)) (compress img ! r ! k));
                    p = tolist img ! r ! (10 * k + i) in
           seg = pixel_digits p \<and> length seg = 6
           \<and> (case p of
                 Gray v \<Rightarrow> int (from_hex seg) = v
               | RGB c0 c1 c2 \<Rightarrow>
                   int (from_hex (take 2 seg)) = c2
                   \<and> int (from_hex (take 2 (drop 2 seg))) = c1
                   \<and> int (from_hex (drop 4 seg)) = c0))"
proof -
  let ?row = "tolist img ! r"
  let ?g = "take 10 (drop (10 * k) ?row)"
  have c: "compress img ! r = compress_row ?row"
    using assms(2) by (simp add: compress_def)
  have n: "length (compress img ! r) = length ?row div 10"
    unfolding c by (simp add: compress_row_groups length_groups10)
  have w: "compress img ! r ! k = ''0x'' @ concat (map pixel_digits (rev ?g))"
    unfolding c using assms(3) by (rule compress_row_nth)
  have lg: "length ?g = 10" using assms(3) by simp
  have "?row \<in> set (tolist img)" using assms(2) by simp
  with assms(1) have vrow: "\<forall>p\<in>set ?row. valid_pixel p"
    by (auto simp: valid_image_def list_all_iff)
  have vg: "\<forall>p\<in>set ?g. valid_pixel p"
    using vrow by (auto dest!: in_set_takeD in_set_dropD)
  have six: "\<forall>p\<in>set (rev ?g). length (pixel_digits p) = 6"
    using vg by (simp add: length_pixel_digits)
  have len: "length (compress img ! r ! k) = 62"
    unfolding w using length_concat_digits [of "rev ?g"] vg lg by simp
  have cells: "let seg = take 6 (drop (2 + 6 * (9 - i)) (compress img ! r ! k));
                   p = ?row ! (10 * k + i) in
           seg = pixel_digits p \<and> length seg = 6
           \<and> (case p of
                 Gray v \<Rightarrow> int (from_hex seg) = v
               | RGB c0 c1 c2 \<Rightarrow>
                   int (from_hex (take 2 seg)) = c2
                   \<and> int (from_hex (take 2 (drop 2 seg))) = c1
                   \<and> int (from_hex (drop 4 seg)) = c0)" if i: "i < 10" for i
  proof -
    have j: "9 - i < length (rev ?g)" using lg by simp
    have "take 6 (drop (2 + 6 * (9 - i)) (compress img ! r ! k))
            = take 6 (drop (6 * (9 - i)) (concat (map pixel_digits (rev ?g))))"
      unfolding w by simp
    also have "\<dots> = pixel_digits (rev ?g ! (9 - i))"
      using six j by (rule segment_of_concat)
    also have "rev ?g ! (9 - i) = ?g ! i"
      using lg i by (simp add: rev_nth)
    also have "?g ! i = ?row ! (10 * k + i)"
      using assms(3) i by simp
    finally have seg: "take 6 (drop (2 + 6 * (9 - i)) (compress img ! r ! k))
                         = pixel_digits (?row ! (10 * k + i))" .
    have "10 * k + i < length ?row" using assms(3) i by simp
    then have v: "valid_pixel (?row ! (10 * k + i))" using vrow by simp
    show ?thesis
      unfolding Let_def seg
      using pixel_digits_values [OF v] length_pixel_digits [OF v] by simp
  qed
  from n w len cells show ?thesis by blast
qed

theorem hexword_layout_witness:
  "valid_image (RGBImage [[(1, 2, 3), (4, 5, 6), (7, 8, 9), (10, 11, 12), (13, 14, 15), (16, 17, 18), (19, 20, 21), (22, 23, 24), (25, 26, 27), (28, 29, 30), (31, 32, 33), (34, 35, 36), (37, 38, 39), (40, 41, 42), (43, 44, 45), (46, 47, 48), (49, 50, 51), (52, 53, 54), (55, 56, 57), (58, 59, 60), (255, 0, 171)]])
   \<and> (0::nat) < length (tolist (RGBImage [[(1, 2, 3), (4, 5, 6), (7, 8, 9), (10, 11, 12), (13, 14, 15), (16, 17, 18), (19, 20, 21), (22, 23, 24), (25, 26, 27), (28, 29, 30), (31, 32, 33), (34, 35, 36), (37, 38, 39), (40, 41, 42), (43, 44, 45), (46, 47, 48), (49, 50, 51), (52, 53, 54), (55, 56, 57), (58, 59, 60), (255, 0, 171)]]))
   \<and> (1::nat) < length (tolist (RGBImage [[(1, 2, 3), (4, 5, 6), (7, 8, 9), (10, 11, 12), (13, 14, 15), (16, 17, 18), (19, 20, 21), (22, 23, 24), (25, 26, 27), (28, 29, 30), (31, 32, 33), (34, 35, 36), (37, 38, 39), (40, 41, 42), (43, 44, 45), (46, 47, 48), (49, 50, 51), (52, 53, 54), (55, 56, 57), (58, 59, 60), (255, 0, 171)]]) ! 0) div 10
   \<and> (0::nat) < 10
   \<and> length (compress (RGBImage [[(1, 2, 3), (4, 5, 6), (7, 8, 9), (10, 11, 12), (13, 14, 15), (16, 17, 18), (19, 20, 21), (22, 23, 24), (25, 26, 27), (28, 29, 30), (31, 32, 33), (34, 35, 36), (37, 38, 39), (40, 41, 42), (43, 44, 45), (46, 47, 48), (49, 50, 51), (52, 53, 54), (55, 56, 57), (58, 59, 60), (255, 0, 171)]]) ! 0) = 2
   \<and> compress (RGBImage [[(1, 2, 3), (4, 5, 6), (7, 8, 9), (10, 11, 12), (13, 14, 15), (16, 17, 18), (19, 20, 21), (22, 23, 24), (25, 26, 27), (28, 29, 30), (31, 32, 33), (34, 35, 36), (37, 38, 39), (40, 41, 42), (43, 44, 45), (46, 47, 48), (49, 50, 51), (52, 53, 54), (55, 56, 57), (58, 59, 60), (255, 0, 171)]]) ! 0 ! 1 = ''0x3c3b3a393837363534333231302f2e2d2c2b2a292827262524232221201f''
   \<and> take 6 (drop (2 + 6 * (9 - 0)) (compress (RGBImage [[(1, 2, 3), (4, 5, 6), (7, 8, 9), (10, 11, 12), (13, 14, 15), (16, 17, 18), (19, 20, 21), (22, 23, 24), (25, 26, 27), (28, 29, 30), (31, 32, 33), (34, 35, 36), (37, 38, 39), (40, 41, 42), (43, 44, 45), (46, 47, 48), (49, 50, 51), (52, 53, 54), (55, 56, 57), (58, 59, 60), (255, 0, 171)]]) ! 0 ! 1)) = ''21201f''"
proof -
  let ?img = "RGBImage [[(1, 2, 3), (4, 5, 6), (7, 8, 9), (10, 11, 12), (13, 14, 15), (16, 17, 18), (19, 20, 21), (22, 23, 24), (25, 26, 27), (28, 29, 30), (31, 32, 33), (34, 35, 36), (37, 38, 39), (40, 41, 42), (43, 44, 45), (46, 47, 48), (49, 50, 51), (52, 53, 54), (55, 56, 57), (58, 59, 60), (255, 0, 171)]]"
  have v: "valid_image ?img"
    by (simp add: valid_image_def tolist_def in_range_def)
  have r: "(0::nat) < length (tolist ?img)"
    by (simp add: tolist_def)
  have k: "(1::nat) < length (tolist ?img ! 0) div 10"
    by (simp add: tolist_def)
  have i: "(0::nat) < 10" by simp
  note th = hexword_layout [OF v r k]
  from th have "length (compress ?img ! 0) = length (tolist ?img ! 0) div 10" by blast
  moreover have "length (tolist ?img ! 0) div 10 = 2" by (simp add: tolist_def)
  ultimately have a: "length (compress ?img ! 0) = 2" by simp
  from th have "compress ?img ! 0 ! 1
      = ''0x'' @ concat (map pixel_digits (rev (take 10 (drop (10 * 1) (tolist ?img ! 0)))))"
    by blast
  moreover have "''0x'' @ concat (map pixel_digits (rev (take 10 (drop (10 * 1) (tolist ?img ! 0)))))
      = ''0x3c3b3a393837363534333231302f2e2d2c2b2a292827262524232221201f''"
    by code_simp
  ultimately have b: "compress ?img ! 0 ! 1 = ''0x3c3b3a393837363534333231302f2e2d2c2b2a292827262524232221201f''"
    by (rule trans)
  from th i have "let seg = take 6 (drop (2 + 6 * (9 - 0)) (compress ?img ! 0 ! 1));
                      p = tolist ?img ! 0 ! (10 * 1 + 0) in
           seg = pixel_digits p \<and> length seg = 6
           \<and> (case p of
                 Gray v \<Rightarrow> int (from_hex seg) = v
               | RGB c0 c1 c2 \<Rightarrow>
                   int (from_hex (take 2 seg)) = c2
                   \<and> int (from_hex (take 2 (drop 2 seg))) = c1
                   \<and> int (from_hex (drop 4 seg)) = c0)" by blast
  then have "take 6 (drop (2 + 6 * (9 - 0)) (compress ?img ! 0 ! 1))
               = pixel_digits (tolist ?img ! 0 ! (10 * 1 + 0))"
    unfolding Let_def by blast
  moreover have "pixel_digits (tolist ?img ! 0 ! (10 * 1 + 0)) = ''21201f''" by code_simp
  ultimately have c: "take 6 (drop (2 + 6 * (9 - 0)) (compress ?img ! 0 ! 1)) = ''21201f''"
    by (rule trans)
  from v r k i a b c show ?thesis by (simp only:)
qed

subsection \<open>Convolution of a constant image\<close>

lemma extend_zeros_nth:
  "r < h + b * 2 \<Longrightarrow> c < w + b * 2 \<Longrightarrow>
     extend_zeros a h w b ! r ! c
       = (if b \<le> r \<and> r < b + h \<and> b \<le> c \<and> c < b + w then a ! (r - b) ! (c - b) else 0)"
  unfolding extend_zeros_def by simp

lemma ones3_nth: "m < 3 \<Longrightarrow> n < 3 \<Longrightarrow> ones3 ! m ! n = 1"
  by (auto simp: ones3_def less_Suc_eq numeral_3_eq_3 nth_Cons')

lemma conv_value_constant:
  assumes "i < h" "j < w"
  shows "conv_value (extend_zeros (replicate h (replicate w v)) h w 1) ones3 3 3 i j
           = inside3 h i * inside3 w j * v"
proof -
  let ?e = "extend_zeros (replicate h (replicate w v)) h w 1"
  let ?t = "\<lambda>m n. if 1 \<le> i + m \<and> i + m < 1 + h \<and> 1 \<le> j + n \<and> j + n < 1 + w then v else 0"
  have tm: "?e ! (i + m) ! (j + n) * ones3 ! m ! n = ?t m n"
    if "m \<in> set [0..<3]" "n \<in> set [0..<3]" for m n
  proof -
    from that have mn: "m < 3" "n < 3" by simp_all
    have "?e ! (i + m) ! (j + n) = ?t m n"
      using mn assms by (subst extend_zeros_nth) auto
    with ones3_nth [OF mn] show ?thesis by (simp only: mult_1_right)
  qed
  have "conv_value ?e ones3 3 3 i j = (\<Sum>m\<leftarrow>[0..<3]. \<Sum>n\<leftarrow>[0..<3]. ?t m n)"
    unfolding conv_value_def
    by (intro arg_cong [where f = sum_list] map_cong refl) (rule tm)
  also have "\<dots> = inside3 h i * inside3 w j * v"
    using assms by (simp add: inside3_def upt_rec numeral_3_eq_3 algebra_simps)
  finally show ?thesis .
qed

lemma inside3_bounds: "1 \<le> inside3 n i \<and> inside3 n i \<le> 3"
  by (simp add: inside3_def)

lemma inside3_interior: "0 < i \<Longrightarrow> i + 1 < n \<Longrightarrow> inside3 n i = 3"
  by (simp add: inside3_def)

lemma clamp255_constant_cell:
  assumes "in_range v"
  shows "clamp255 (inside3 h i * inside3 w j * v div 9) = inside3 h i * inside3 w j * v div 9"
proof -
  from assms have v: "0 \<le> v" "v \<le> 255" by (simp_all add: in_range_def)
  let ?a = "inside3 h i" and ?b = "inside3 w j"
  have a: "1 \<le> ?a" "?a \<le> 3" and b: "1 \<le> ?b" "?b \<le> 3"
    using inside3_bounds by simp_all
  have "?a * ?b \<le> 3 * 3" using a b by (intro mult_mono) simp_all
  then have ab: "?a * ?b \<le> 9" by simp
  have ab0: "0 \<le> ?a * ?b" using a b by simp
  have "?a * ?b * v \<le> 9 * v" using ab v by (intro mult_right_mono) simp_all
  then have "?a * ?b * v div 9 \<le> 9 * v div 9" by (rule zdiv_mono1) simp
  then have hi: "?a * ?b * v div 9 \<le> 255" using v by simp
  have "0 \<le> ?a * ?b * v" using ab0 v by simp
  then have lo: "0 \<le> ?a * ?b * v div 9" by simp
  from hi lo show ?thesis by (simp add: clamp255_def)
qed

lemma conv2d_constant:
  assumes "0 < h" "in_range v"
  shows "conv2d (replicate h (replicate w v)) ones3 9
           = Inr (map (\<lambda>i. map (\<lambda>j. inside3 h i * inside3 w j * v div 9) [0..<w]) [0..<h])"
proof -
  from assms(1) obtain h' where h: "h = Suc h'" by (cases h) simp_all
  let ?a = "replicate h (replicate w v)"
  have "conv2d ?a ones3 9
          = Inr (map (\<lambda>i. map (\<lambda>j.
                  clamp255 (conv_value (extend_zeros ?a h w 1) ones3 3 3 i j div 9))
                  [0..<w]) [0..<h])"
    by (simp add: conv2d_def h ones3_def Let_def list_all_iff numeral_3_eq_3)
  also have "\<dots> = Inr (map (\<lambda>i. map (\<lambda>j. inside3 h i * inside3 w j * v div 9) [0..<w]) [0..<h])"
  proof -
    have "clamp255 (conv_value (extend_zeros ?a h w 1) ones3 3 3 i j div 9)
            = inside3 h i * inside3 w j * v div 9"
      if "i \<in> set [0..<h]" "j \<in> set [0..<w]" for i j
    proof -
      from that have "i < h" "j < w" by simp_all
      then show ?thesis
        by (simp only: conv_value_constant clamp255_constant_cell [OF assms(2)])
    qed
    then show ?thesis
      by (intro arg_cong [where f = Inr] map_cong refl)
  qed
  finally show ?thesis .
qed

lemma channel_constant:
  "channel 0 (replicate h (replicate w (r, g, b))) = replicate h (replicate w r)"
  "channel 1 (replicate h (replicate w (r, g, b))) = replicate h (replicate w g)"
  "channel 2 (replicate h (replicate w (r, g, b))) = replicate h (replicate w b)"
  by (simp_all add: channel_def)

lemma zip3_map:
  "zip (map f xs) (zip (map g xs) (map k xs)) = map (\<lambda>x. (f x, g x, k x)) xs"
  by (induction xs) simp_all

lemma dstack_maps:
  "dstack (map (\<lambda>i. map (f i) js) is) (map (\<lambda>i. map (g i) js) is) (map (\<lambda>i. map (k i) js) is)
     = map (\<lambda>i. map (\<lambda>j. (f i j, g i j, k i j)) js) is"
  by (simp add: dstack_def zip3_map)

lemma blur_image_constant:
  assumes "0 < h" "in_range r" "in_range g" "in_range b"
  shows "blur_image (replicate h (replicate w (r, g, b)))
           = Inr (map (\<lambda>i. map (\<lambda>j. (inside3 h i * inside3 w j * r div 9,
                                        inside3 h i * inside3 w j * g div 9,
                                        inside3 h i * inside3 w j * b div 9)) [0..<w]) [0..<h])"
  unfolding blur_image_def channel_constant
  by (simp only: conv2d_constant [OF assms(1)] assms sum.case dstack_maps)

text \<open>
  C6 (as stated): the claim keeps every cell of a constant image, border cells too.  On
  the 3 by 3 image of the constant pixel (9, 18, 27) only the centre cell keeps its value.
\<close>

theorem blur_constant_border_counterexample:
  "blur_image [[(9, 18, 27), (9, 18, 27), (9, 18, 27)],
               [(9, 18, 27), (9, 18, 27), (9, 18, 27)],
               [(9, 18, 27), (9, 18, 27), (9, 18, 27)]]
     = Inr [[(4, 8, 12), (6, 12, 18), (4, 8, 12)],
            [(6, 12, 18), (9, 18, 27), (6, 12, 18)],
            [(4, 8, 12), (6, 12, 18), (4, 8, 12)]]
   \<and> blur_image [[(9, 18, 27), (9, 18, 27), (9, 18, 27)],
               [(9, 18, 27), (9, 18, 27), (9, 18, 27)],
               [(9, 18, 27), (9, 18, 27), (9, 18, 27)]]
     \<noteq> Inr [[(9, 18, 27), (9, 18, 27), (9, 18, 27)],
            [(9, 18, 27), (9, 18, 27), (9, 18, 27)],
            [(9, 18, 27), (9, 18, 27), (9, 18, 27)]]"
  by code_simp

text \<open>
  C6 (amended): for every constant RGB image with channel values in [0,255], the box blur
  with zero padding returns an image of the same size in which every interior cell (not in
  the first or last row or column) keeps its value, and a border cell holds, per channel,
  \<open>floor(n * v / 9)\<close> where \<open>n\<close> counts the cells of its 3 by 3 neighbourhood that
  lie inside the image (4 at a corner, 6 on an edge of an image with at least two rows and
  columns).
\<close>

theorem blur_constant_image:
  assumes "0 < h" and "0 < w" and "in_range r" and "in_range g" and "in_range b"
  shows "\<exists>out. blur_image (replicate h (replicate w (r, g, b))) = Inr out
      \<and> length out = h \<and> (\<forall>i<h. length (out ! i) = w)
      \<and> (\<forall>i<h. \<forall>j<w. out ! i ! j = (inside3 h i * inside3 w j * r div 9,
                                     inside3 h i * inside3 w j * g div 9,
                                     inside3 h i * inside3 w j * b div 9))
      \<and> (\<forall>i j. 0 < i \<and> i + 1 < h \<and> 0 < j \<and> j + 1 < w \<longrightarrow> out ! i ! j = (r, g, b))"
proof -
  let ?cell = "\<lambda>i j. (inside3 h i * inside3 w j * r div 9,
                      inside3 h i * inside3 w j * g div 9,
                      inside3 h i * inside3 w j * b div 9)"
  let ?out = "map (\<lambda>i. map (\<lambda>j. ?cell i j) [0..<w]) [0..<h]"
  have run: "blur_image (replicate h (replicate w (r, g, b))) = Inr ?out"
    using assms by (intro blur_image_constant)
  have len: "length ?out = h" "\<forall>i<h. length (?out ! i) = w" by simp_all
  have cells: "\<forall>i<h. \<forall>j<w. ?out ! i ! j = ?cell i j" by simp
  have inner: "?out ! i ! j = (r, g, b)" if "0 < i \<and> i + 1 < h \<and> 0 < j \<and> j + 1 < w" for i j
  proof -
    from that have "inside3 h i = 3" "inside3 w j = 3" by (simp_all add: inside3_interior)
    moreover from that have "?out ! i ! j = ?cell i j" by simp
    ultimately show ?thesis by simp
  qed
  from run len cells inner show ?thesis by blast
qed

theorem blur_constant_image_witness:
  "(0::nat) < 3 \<and> in_range 9 \<and> in_range 18 \<and> in_range 27
   \<and> (\<exists>out. blur_image (replicate 3 (replicate 3 (9, 18, 27))) = Inr out
         \<and> out ! 1 ! 1 = (9, 18, 27) \<and> out ! 0 ! 0 = (4, 8, 12) \<and> out ! 0 ! 1 = (6, 12, 18))"
proof -
  have p: "(0::nat) < 3" by simp
  have r: "in_range 9" "in_range 18" "in_range 27" by (simp_all add: in_range_def)
  from blur_constant_image [OF p p r]
  obtain out where run: "blur_image (replicate 3 (replicate 3 (9, 18, 27))) = Inr out"
    and cells: "\<forall>i<3. \<forall>j<3. out ! i ! j = (inside3 3 i * inside3 3 j * 9 div 9,
                                     inside3 3 i * inside3 3 j * 18 div 9,
                                     inside3 3 i * inside3 3 j * 27 div 9)"
    and inner: "\<forall>i j. 0 < i \<and> i + 1 < 3 \<and> 0 < j \<and> j + 1 < (3::nat) \<longrightarrow> out ! i ! j = (9, 18, 27)"
    by blast
  from inner have c: "out ! 1 ! 1 = (9, 18, 27)" by simp
  from cells have "out ! 0 ! 0 = (inside3 3 0 * inside3 3 0 * 9 div 9,
                                  inside3 3 0 * inside3 3 0 * 18 div 9,
                                  inside3 3 0 * inside3 3 0 * 27 div 9)" by simp
  then have a: "out ! 0 ! 0 = (4, 8, 12)" by (simp add: inside3_def)
  from cells have "out ! 0 ! 1 = (inside3 3 0 * inside3 3 1 * 9 div 9,
                                  inside3 3 0 * inside3 3 1 * 18 div 9,
                                  inside3 3 0 * inside3 3 1 * 27 div 9)" by simp
  then have b: "out ! 0 ! 1 = (6, 12, 18)" by (simp add: inside3_def)
  from p r run a b c show ?thesis by blast
qed

subsection \<open>Crop information word\<close>

text \<open>
  C4 (the stated scenario value): the claim gives 167,804,928 for the information word of
  \<open>crop_x = 10\<close>, \<open>crop_y = 3\<close>.  On an image large enough for the SD crop the
  envelope does not carry that number.
\<close>

lemma shape2_replicate:
  "0 < n \<Longrightarrow> shape2 (GrayImage (replicate n r)) = (n, length r)"
  by (cases n) (simp_all add: shape2_def)

theorem crop_info_scenario_counterexample:
  "crop_main SD 10 3 (GrayImage (replicate 483 (replicate 650 0)))
     \<noteq> Inr \<lparr>c_original = compress (GrayImage (replicate 483 (replicate 650 0))),
              info = 167804928\<rparr>"
  by (simp add: crop_main_def shape2_replicate)

text \<open>
  C4 (amended): whenever the crop script produces an envelope, its \<open>info\<close> field is
  \<open>crop_x * 2^24 + crop_y * 2^12\<close>; for \<open>crop_x = 10\<close> and \<open>crop_y = 3\<close> this is
  167,784,448 (= 167,772,160 + 12,288).
\<close>

theorem crop_info_packing:
  "crop_main res crop_x crop_y image_np = Inr env \<Longrightarrow>
     info env = crop_x * 2 ^ 24 + crop_y * 2 ^ 12
     \<and> (crop_x = 10 \<and> crop_y = 3 \<longrightarrow> info env = 167784448)"
  by (auto simp: crop_main_def split: prod.splits if_splits)

theorem crop_info_packing_witness:
  "crop_main SD 10 3 (GrayImage (replicate 483 (replicate 650 0)))
     = Inr \<lparr>c_original = compress (GrayImage (replicate 483 (replicate 650 0))),
             info = 167784448\<rparr>
   \<and> info \<lparr>c_original = compress (GrayImage (replicate 483 (replicate 650 0))),
             info = 167784448\<rparr> = 10 * 2 ^ 24 + 3 * 2 ^ 12"
proof -
  have run: "crop_main SD 10 3 (GrayImage (replicate 483 (replicate 650 0)))
     = Inr \<lparr>c_original = compress (GrayImage (replicate 483 (replicate 650 0))),
             info = 167784448\<rparr>"
    by (simp add: crop_main_def shape2_replicate)
  from crop_info_packing [OF run] show ?thesis
    using run by simp
qed

subsection \<open>Grayscale\<close>

lemma uint32_small: "0 \<le> v \<Longrightarrow> v < 2 ^ 32 \<Longrightarrow> uint32 v = v"
  by (simp add: uint32_def)

lemma gray_value_exact:
  assumes "in_range r" "in_range g" "in_range b"
  shows "uint8 (uint32 (uint32 (uint32 (299 * uint32 r) + uint32 (587 * uint32 g))
                    + uint32 (114 * uint32 b)) div 1000)
         = (299 * r + 587 * g + 114 * b) div 1000"
proof -
  from assms have r: "0 \<le> r" "r \<le> 255" and g: "0 \<le> g" "g \<le> 255" and b: "0 \<le> b" "b \<le> 255"
    by (simp_all add: in_range_def)
  have "uint32 r = r" "uint32 g = g" "uint32 b = b"
    using r g b by (simp_all add: uint32_small)
  moreover have "uint32 (299 * r) = 299 * r" "uint32 (587 * g) = 587 * g" "uint32 (114 * b) = 114 * b"
    using r g b by (simp_all add: uint32_small)
  moreover have "uint32 (299 * r + 587 * g) = 299 * r + 587 * g"
    using r g by (simp add: uint32_small)
  moreover have "uint32 (299 * r + 587 * g + 114 * b) = 299 * r + 587 * g + 114 * b"
    using r g b by (simp add: uint32_small)
  moreover have "0 \<le> (299 * r + 587 * g + 114 * b) div 1000"
    using r g b by simp
  moreover have "(299 * r + 587 * g + 114 * b) div 1000 < 256"
    using r g b by simp
  ultimately show ?thesis
    by (simp add: uint8_def)
qed

text \<open>
  C5 (the stated scenario values): the claim maps pixel (0,255,0) to 146 and pixel
  (0,0,255) to 28.  The kernel does not.
\<close>

theorem grayscale_scenario_counterexample:
  "rgb_to_grayscale (RGBImage [[(0, 255, 0), (0, 0, 255)]]) \<noteq> [[146, 28]]"
  by code_simp

text \<open>
  C5 (amended): for every RGB image with channel values in [0,255] the kernel computes
  \<open>floor((299*R + 587*G + 114*B) / 1000)\<close> per pixel, with no wrap-around in the
  32-bit intermediate or in the final 8-bit cast; pixel (255,0,0) maps to 76, pixel
  (0,255,0) to 149 and pixel (0,0,255) to 29.
\<close>

theorem grayscale_formula:
  "valid_rgb rows \<Longrightarrow>
     rgb_to_grayscale (RGBImage rows)
       = map (map (\<lambda>(r, g, b). (299 * r + 587 * g + 114 * b) div 1000)) rows
     \<and> rgb_to_grayscale (RGBImage [[(255, 0, 0), (0, 255, 0), (0, 0, 255)]]) = [[76, 149, 29]]"
proof
  assume v: "valid_rgb rows"
  show "rgb_to_grayscale (RGBImage rows)
       = map (map (\<lambda>(r, g, b). (299 * r + 587 * g + 114 * b) div 1000)) rows"
    unfolding rgb_to_grayscale_def image.case
  proof (intro map_cong refl)
    fix row p
    assume "row \<in> set rows" "p \<in> set row"
    with v have "case p of (r, g, b) \<Rightarrow> in_range r \<and> in_range g \<and> in_range b"
      by (auto simp: valid_rgb_def list_all_iff)
    then show "(case p of (r, g, b) \<Rightarrow>
           uint8 (uint32 (uint32 (uint32 (299 * uint32 r) + uint32 (587 * uint32 g))
                    + uint32 (114 * uint32 b)) div 1000))
         = (case p of (r, g, b) \<Rightarrow> (299 * r + 587 * g + 114 * b) div 1000)"
      by (cases p) (simp add: gray_value_exact)
  qed
  show "rgb_to_grayscale (RGBImage [[(255, 0, 0), (0, 255, 0), (0, 0, 255)]]) = [[76, 149, 29]]"
    by code_simp
qed

theorem grayscale_formula_witness:
  "valid_rgb [[(12, 200, 31), (255, 255, 255)]]
   \<and> rgb_to_grayscale (RGBImage [[(12, 200, 31), (255, 255, 255)]]) = [[124, 255]]"
proof -
  have v: "valid_rgb [[(12, 200, 31), (255, 255, 255)]]"
    by (simp add: valid_rgb_def in_range_def)
  from grayscale_formula [OF v] show ?thesis
    using v by simp
qed

subsection \<open>Factor field of the brightness and contrast envelopes\<close>

subsection \<open>Rounding to binary64\<close>

text \<open>\<open>py_round\<close> is monotone against integers and stays within one half.\<close>

lemma py_round_cases: "py_round x = \<lfloor>x\<rfloor> \<or> py_round x = \<lfloor>x\<rfloor> + 1"
  by (simp add: py_round_def Let_def)

lemma py_round_ge: "real_of_int n \<le> x \<Longrightarrow> n \<le> py_round x"
proof -
  assume "real_of_int n \<le> x"
  then have "n \<le> \<lfloor>x\<rfloor>" by (simp add: le_floor_iff)
  with py_round_cases [of x] show ?thesis by auto
qed

lemma py_round_le: "x \<le> real_of_int n \<Longrightarrow> py_round x \<le> n"
proof -
  assume a: "x \<le> real_of_int n"
  show ?thesis
  proof (cases "x - real_of_int \<lfloor>x\<rfloor> < 1 / 2")
    case True
    then have "py_round x = \<lfloor>x\<rfloor>" by (simp add: py_round_def Let_def)
    moreover have "\<lfloor>x\<rfloor> \<le> n" using a by (simp add: floor_le_iff)
    ultimately show ?thesis by simp
  next
    case False
    then have "real_of_int \<lfloor>x\<rfloor> < x" by simp
    with a have "real_of_int \<lfloor>x\<rfloor> < real_of_int n" by simp
    then have "\<lfloor>x\<rfloor> + 1 \<le> n" by simp
    with py_round_cases [of x] show ?thesis by auto
  qed
qed

lemma py_round_near: "\<bar>real_of_int (py_round x) - x\<bar> \<le> 1 / 2"
proof -
  have "real_of_int \<lfloor>x\<rfloor> \<le> x" "x < real_of_int \<lfloor>x\<rfloor> + 1" by linarith+
  then show ?thesis
    by (auto simp: py_round_def Let_def abs_le_iff)
qed

text \<open>\<open>exponent2\<close> is the binary exponent, and the only one.\<close>

lemma exponent2_bounds:
  assumes "0 < x"
  shows "2 powi exponent2 x \<le> x \<and> x < 2 powi (exponent2 x + 1)"
proof (cases "1 \<le> x")
  case True
  let ?n = "\<lfloor>x\<rfloor>"
  from True have n: "0 < ?n" by simp
  then have b: "1 \<le> bitlen ?n" using bitlen_eq_zero_iff [of ?n] bitlen_nonneg [of ?n] by linarith
  from bitlen_bounds [OF n] have lo: "2 ^ nat (bitlen ?n - 1) \<le> ?n" and hi: "?n < 2 ^ nat (bitlen ?n)"
    by simp_all
  have e: "exponent2 x = bitlen ?n - 1" using True by (simp add: exponent2_def)
  have "(2::real) powi (bitlen ?n - 1) = 2 ^ nat (bitlen ?n - 1)"
    using b by (simp add: power_int_def)
  also have "\<dots> = real_of_int (2 ^ nat (bitlen ?n - 1))" by simp
  also have "\<dots> \<le> real_of_int ?n" using lo by (simp only: of_int_le_iff)
  also have "\<dots> \<le> x" by simp
  finally have l: "2 powi exponent2 x \<le> x" using e by simp
  have "?n + 1 \<le> 2 ^ nat (bitlen ?n)" using hi by simp
  then have "real_of_int (?n + 1) \<le> real_of_int (2 ^ nat (bitlen ?n))" by (simp only: of_int_le_iff)
  moreover have "x < real_of_int (?n + 1)" by simp
  ultimately have "x < real_of_int (2 ^ nat (bitlen ?n))" by linarith
  also have "\<dots> = 2 ^ nat (bitlen ?n)" by simp
  also have "\<dots> = (2::real) powi (bitlen ?n)"
    using b by (simp add: power_int_def)
  finally have "x < 2 powi (exponent2 x + 1)" using e by simp
  with l show ?thesis by simp
next
  case False
  let ?c = "\<lceil>1 / x\<rceil>"
  from False assms have x1: "1 < 1 / x" by simp
  then have c: "0 < ?c - 1" by (simp add: less_ceiling_iff)
  let ?b = "bitlen (?c - 1)"
  from c have b: "1 \<le> ?b" using bitlen_eq_zero_iff [of "?c - 1"] bitlen_nonneg [of "?c - 1"] by linarith
  from bitlen_bounds [OF c] have lo: "2 ^ nat (?b - 1) \<le> ?c - 1" and hi: "?c - 1 < 2 ^ nat ?b"
    by simp_all
  have e: "exponent2 x = - ?b" using False by (simp add: exponent2_def)
  have "?c \<le> 2 ^ nat ?b" using hi by simp
  then have "real_of_int ?c \<le> real_of_int (2 ^ nat ?b)" by (simp only: of_int_le_iff)
  moreover have "1 / x \<le> real_of_int ?c" by simp
  moreover have "real_of_int (2 ^ nat ?b) = 2 ^ nat ?b" by simp
  ultimately have "1 / x \<le> 2 ^ nat ?b" by linarith
  then have "1 \<le> 2 ^ nat ?b * x" using assms by (simp add: field_simps)
  then have "1 / 2 ^ nat ?b \<le> x" by (simp add: field_simps)
  moreover have "(2::real) powi (- ?b) = 1 / 2 ^ nat ?b"
    using b by (simp add: power_int_def field_simps)
  ultimately have l: "2 powi exponent2 x \<le> x" using e by simp
  have "real_of_int (2 ^ nat (?b - 1)) \<le> real_of_int (?c - 1)" using lo by (simp only: of_int_le_iff)
  moreover have "real_of_int (?c - 1) < 1 / x" using ceiling_correct [of "1 / x"] by simp
  moreover have "real_of_int (2 ^ nat (?b - 1)) = 2 ^ nat (?b - 1)" by simp
  ultimately have "2 ^ nat (?b - 1) < 1 / x" by linarith
  then have "2 ^ nat (?b - 1) * x < 1" using assms by (simp add: field_simps)
  then have "x < 1 / 2 ^ nat (?b - 1)" by (simp add: field_simps)
  moreover have "(2::real) powi (- ?b + 1) = 1 / 2 ^ nat (?b - 1)"
  proof -
    have "- ?b + 1 = - (?b - 1)" by simp
    then have "(2::real) powi (- ?b + 1) = 2 powi (- (?b - 1))" by simp
    also have "\<dots> = 1 / 2 ^ nat (?b - 1)"
      using b by (simp add: power_int_def field_simps)
    finally show ?thesis .
  qed
  ultimately have "x < 2 powi (exponent2 x + 1)" using e by simp
  with l show ?thesis by simp
qed

lemma powi2_less_imp: "(2::real) powi a < 2 powi b \<Longrightarrow> a < b"
proof (rule ccontr)
  assume l: "(2::real) powi a < 2 powi b" and "\<not> a < b"
  then have "b \<le> a" by simp
  then have "(2::real) powi b \<le> 2 powi a" by (rule power_int_increasing) simp
  with l show False by simp
qed

lemma exponent2_unique:
  assumes "0 < x" and "2 powi e \<le> x" and "x < 2 powi (e + 1)"
  shows "exponent2 x = e"
proof -
  from exponent2_bounds [OF assms(1)]
  have l: "2 powi exponent2 x \<le> x" and u: "x < 2 powi (exponent2 x + 1)" by simp_all
  from l assms(3) have "(2::real) powi exponent2 x < 2 powi (e + 1)" by simp
  then have "exponent2 x < e + 1" by (rule powi2_less_imp)
  moreover from assms(2) u have "(2::real) powi e < 2 powi (exponent2 x + 1)" by simp
  then have "e < exponent2 x + 1" by (rule powi2_less_imp)
  ultimately show ?thesis by simp
qed

lemma exponent2_less:
  assumes "0 < x" and "x < 2 powi k"
  shows "exponent2 x < k"
proof -
  from exponent2_bounds [OF assms(1)] assms(2)
  have "(2::real) powi exponent2 x < 2 powi k" by simp
  then show ?thesis by (rule powi2_less_imp)
qed

lemma exponent2_ge:
  assumes "2 powi k \<le> x"
  shows "k \<le> exponent2 x"
proof -
  have x: "0 < x"
    using zero_less_power_int [of "2::real" k] assms by linarith
  from exponent2_bounds [OF x] assms
  have "(2::real) powi k < 2 powi (exponent2 x + 1)" by simp
  then have "k < exponent2 x + 1" by (rule powi2_less_imp)
  then show ?thesis by simp
qed

text \<open>The spacing is positive, and the reciprocal of a power of two below \<open>2^53\<close>.\<close>

lemma ulp_pos: "0 < ulp x"
  by (simp add: ulp_def zero_less_power_int)

lemma ulp_recip:
  assumes "exponent2 \<bar>x\<bar> \<le> 52"
  shows "ulp x = 1 / 2 ^ nat (52 - max (exponent2 \<bar>x\<bar>) (- 1022))"
proof -
  define m where "m = 52 - max (exponent2 \<bar>x\<bar>) (- 1022)"
  from assms have m: "0 \<le> m" by (simp add: m_def)
  have "max (exponent2 \<bar>x\<bar>) (- 1022) - 52 = - m" by (simp add: m_def)
  then have "ulp x = 2 powi (- m)" by (simp only: ulp_def)
  also have "\<dots> = inverse (2 powi m)" by (rule power_int_minus)
  also have "(2::real) powi m = 2 ^ nat m" using m by (simp add: power_int_def)
  finally show ?thesis by (simp add: m_def inverse_eq_divide)
qed

text \<open>Below \<open>2^53\<close> the integers are multiples of the spacing, so rounding does not
  cross an integer; the rounded value keeps the sign and stays within half a spacing of
  the exact one; from \<open>2^1024\<close> on the result is infinite.\<close>

lemma round_double_between:
  assumes "0 < x" and "x < 2 ^ 53"
  shows "\<exists>p. round_double x = Finite p \<and> real_of_int \<lfloor>x\<rfloor> \<le> p \<and> p \<le> real_of_int \<lceil>x\<rceil>"
proof -
  have "x < 2 powi 53" using assms(2) by simp
  with assms(1) have "exponent2 x < 53" by (rule exponent2_less)
  then have "exponent2 \<bar>x\<bar> \<le> 52" using assms(1) by simp
  from ulp_recip [OF this] obtain k :: nat where u: "ulp x = 1 / 2 ^ k" by blast
  let ?m = "py_round (x / ulp x)"
  let ?y = "real_of_int ?m * ulp x"
  have scale: "real_of_int n / ulp x = real_of_int (n * 2 ^ k)" for n
    by (simp add: u)
  have "real_of_int (\<lfloor>x\<rfloor> * 2 ^ k) \<le> x / ulp x"
    unfolding scale [symmetric] using ulp_pos [of x]
    by (intro divide_right_mono) simp_all
  then have "\<lfloor>x\<rfloor> * 2 ^ k \<le> ?m" by (rule py_round_ge)
  then have "real_of_int (\<lfloor>x\<rfloor> * 2 ^ k) \<le> real_of_int ?m" by (simp only: of_int_le_iff)
  then have "real_of_int \<lfloor>x\<rfloor> / ulp x \<le> real_of_int ?m" by (simp only: scale)
  then have lo: "real_of_int \<lfloor>x\<rfloor> \<le> ?y"
    using ulp_pos [of x] by (simp add: pos_divide_le_eq)
  have "x / ulp x \<le> real_of_int (\<lceil>x\<rceil> * 2 ^ k)"
    unfolding scale [symmetric] using ulp_pos [of x]
    by (intro divide_right_mono) simp_all
  then have "?m \<le> \<lceil>x\<rceil> * 2 ^ k" by (rule py_round_le)
  then have "real_of_int ?m \<le> real_of_int (\<lceil>x\<rceil> * 2 ^ k)" by (simp only: of_int_le_iff)
  then have "real_of_int ?m \<le> real_of_int \<lceil>x\<rceil> / ulp x" by (simp only: scale)
  then have hi: "?y \<le> real_of_int \<lceil>x\<rceil>"
    using ulp_pos [of x] by (simp add: pos_le_divide_eq)
  have "\<lceil>x\<rceil> \<le> 2 ^ 53" using assms(2) by (simp add: ceiling_le_iff)
  then have "real_of_int \<lceil>x\<rceil> \<le> real_of_int (2 ^ 53)" by (simp only: of_int_le_iff)
  then have c: "real_of_int \<lceil>x\<rceil> \<le> 2 ^ 53" by simp
  have "(2::real) ^ 53 < 2 ^ 1024" by simp
  with hi c have fin1: "\<not> 2 ^ 1024 \<le> ?y" by linarith
  have "0 \<le> real_of_int \<lfloor>x\<rfloor>" using assms(1) by simp
  with lo have y0: "0 \<le> ?y" by linarith
  have "- ((2::real) ^ 1024) < 0" by simp
  with y0 have fin2: "\<not> ?y \<le> - (2 ^ 1024)" by linarith
  have "round_double x = Finite ?y"
    using assms(1) fin1 fin2 by (simp add: round_double_def Let_def)
  with lo hi show ?thesis by blast
qed

lemma round_double_nonneg:
  assumes "0 < x" and "round_double x = Finite p"
  shows "0 \<le> p"
proof -
  have "real_of_int 0 \<le> x / ulp x" using assms(1) ulp_pos [of x] by simp
  then have "0 \<le> py_round (x / ulp x)" by (rule py_round_ge)
  then have "0 \<le> real_of_int (py_round (x / ulp x)) * ulp x"
    using ulp_pos [of x] by simp
  moreover have "p = real_of_int (py_round (x / ulp x)) * ulp x"
    using assms by (simp add: round_double_def Let_def split: if_splits)
  ultimately show ?thesis by simp
qed

lemma round_double_near:
  assumes "round_double x = Finite p"
  shows "\<bar>p - x\<bar> \<le> ulp x / 2"
proof (cases "x = 0")
  case True
  with assms have "p = 0" by (simp add: round_double_def)
  with True ulp_pos [of x] show ?thesis by simp
next
  case False
  let ?m = "real_of_int (py_round (x / ulp x))"
  from assms False have p: "p = ?m * ulp x"
    by (simp add: round_double_def Let_def split: if_splits)
  have "\<bar>?m - x / ulp x\<bar> * ulp x \<le> 1 / 2 * ulp x"
    using py_round_near [of "x / ulp x"] ulp_pos [of x] by (intro mult_right_mono) simp_all
  moreover have "\<bar>?m - x / ulp x\<bar> * ulp x = \<bar>?m * ulp x - x\<bar>"
  proof -
    have "\<bar>?m - x / ulp x\<bar> * ulp x = \<bar>(?m - x / ulp x) * ulp x\<bar>"
      using ulp_pos [of x] by (simp add: abs_mult)
    also have "(?m - x / ulp x) * ulp x = ?m * ulp x - x"
      using ulp_pos [of x] by (simp add: field_simps)
    finally show ?thesis .
  qed
  ultimately show ?thesis using p by simp
qed

lemma round_double_overflow:
  assumes "2 ^ 1024 \<le> x"
  shows "round_double x = PosInf"
proof -
  have x: "0 < x" using assms by (rule less_le_trans [rotated]) simp
  let ?e = "exponent2 x"
  have "(2::real) powi 1024 \<le> x" using assms by simp
  then have e: "1024 \<le> ?e" by (rule exponent2_ge)
  then have u: "ulp x = 2 powi (?e - 52)" using x by (simp add: ulp_def max_def)
  have l: "2 powi ?e \<le> x" using exponent2_bounds [OF x] by simp
  have "(2::real) powi (52 + (?e - 52)) = 2 powi 52 * 2 powi (?e - 52)"
    by (rule power_int_add) simp
  moreover have "52 + (?e - 52) = ?e" by simp
  ultimately have "(2::real) powi ?e = 2 powi 52 * 2 powi (?e - 52)" by simp
  then have "real_of_int (2 ^ 52) * ulp x = 2 powi ?e" by (simp add: u)
  with l have "real_of_int (2 ^ 52) * ulp x \<le> x" by simp
  then have "real_of_int (2 ^ 52) \<le> x / ulp x"
    using ulp_pos [of x] by (simp add: pos_le_divide_eq)
  then have "2 ^ 52 \<le> py_round (x / ulp x)" by (rule py_round_ge)
  then have "real_of_int (2 ^ 52) \<le> real_of_int (py_round (x / ulp x))"
    by (simp only: of_int_le_iff)
  then have "real_of_int (2 ^ 52) * ulp x \<le> real_of_int (py_round (x / ulp x)) * ulp x"
    using ulp_pos [of x] by (intro mult_right_mono) simp_all
  moreover have "real_of_int (2 ^ 52) * ulp x = 2 powi ?e" by fact
  moreover have "(2::real) powi 1024 \<le> 2 powi ?e"
    using e by (intro power_int_increasing) simp_all
  ultimately have "2 ^ 1024 \<le> real_of_int (py_round (x / ulp x)) * ulp x" by simp
  then show ?thesis using x by (simp add: round_double_def Let_def)
qed

text \<open>
  C8 (as stated): the claim makes the \<open>factor\<close> field the rounding of ten times the
  factor.  At factor 1.75 the product is 17.5, a binary64 number, which rounds to 18; the
  envelopes carry 17.
\<close>

theorem factor_field_round_counterexample:
  "brightness_main (GrayImage [[0]]) (Finite (7 / 4))
     = Inr \<lparr>original = [[]], transformed = [[]], factor = 17\<rparr>
   \<and> contrast_main [[(0, 0, 0)]] (Finite (7 / 4))
     = Inr \<lparr>original = [[]], transformed = [[]], factor = 17\<rparr>
   \<and> py_round (7 / 4 * 10) = 18"
proof -
  have u: "ulp (35 / 2) = 1 / 2 ^ 48" by code_simp
  have r: "round_double (35 / 2) = Finite (35 / 2)"
    unfolding round_double_def Let_def u by (simp add: py_round_def)
  have c: "compress (GrayImage [[0]]) = [[]]"
    "adjust_brightness_and_compress (GrayImage [[0]]) (7 / 4) = [[]]"
    "compress (RGBImage [[(0, 0, 0)]]) = [[]]"
    "adjust_contrast_and_compress [[(0, 0, 0)]] (7 / 4) = [[]]"
    by code_simp+
  have "py_round (7 / 4 * 10) = 18" by (simp add: py_round_def)
  then show ?thesis
    by (simp add: brightness_main_def contrast_main_def r c py_int_def)
qed

text \<open>
  C8 (amended): for every positive finite float factor, the brightness and contrast
  scripts store \<open>int(factor * 10)\<close>: the binary64 product of the factor and 10 (the
  exact product rounded to the nearest binary64 number, a tie to the even one), cut to its
  integer part, and not the product rounded to the nearest integer.  When the exact
  tenfold is below \<open>2^53\<close>, the product is finite, within half a spacing of the exact
  tenfold, and the stored integer lies between the floor and the ceiling of the exact
  tenfold: it is the floor unless the product rounds up to the next integer, as it does
  for the float nearest to 0.3, which gives 3.  When the exact tenfold is itself a
  binary64 number the product is exact.  When the exact tenfold reaches \<open>2^1024\<close> the
  product is infinite, \<open>int\<close> raises, and the script exits with status 1 without an
  envelope.
\<close>

theorem factor_field_truncates:
  assumes "is_double f" and "0 < f"
  shows "(case fmul (Finite f) (Finite 10) of
            Finite p \<Rightarrow>
              (\<exists>env. brightness_main image_np (Finite f) = Inr env \<and> factor env = \<lfloor>p\<rfloor>)
              \<and> (\<exists>env. contrast_main rgb_np (Finite f) = Inr env \<and> factor env = \<lfloor>p\<rfloor>)
          | _ \<Rightarrow>
              brightness_main image_np (Finite f) = Inl (SystemExit 1)
              \<and> contrast_main rgb_np (Finite f) = Inl (SystemExit 1))
     \<and> (f * 10 < 2 ^ 53 \<longrightarrow>
          (\<exists>p. fmul (Finite f) (Finite 10) = Finite p
               \<and> \<bar>p - f * 10\<bar> \<le> ulp (f * 10) / 2
               \<and> \<lfloor>f * 10\<rfloor> \<le> \<lfloor>p\<rfloor> \<and> \<lfloor>p\<rfloor> \<le> \<lceil>f * 10\<rceil>))
     \<and> (is_double (f * 10) \<longrightarrow> fmul (Finite f) (Finite 10) = Finite (f * 10))
     \<and> (2 ^ 1024 \<le> f * 10 \<longrightarrow> fmul (Finite f) (Finite 10) = PosInf)"
proof -
  from assms(2) have x: "0 < f * 10" by simp
  have m: "fmul (Finite f) (Finite 10) = round_double (f * 10)" by simp
  have trunc: "py_int p = \<lfloor>p\<rfloor>" if "round_double (f * 10) = Finite p" for p
    using round_double_nonneg [OF x that] by (simp add: py_int_def)
  have field: "(case fmul (Finite f) (Finite 10) of
            Finite p \<Rightarrow>
              (\<exists>env. brightness_main image_np (Finite f) = Inr env \<and> factor env = \<lfloor>p\<rfloor>)
              \<and> (\<exists>env. contrast_main rgb_np (Finite f) = Inr env \<and> factor env = \<lfloor>p\<rfloor>)
          | _ \<Rightarrow>
              brightness_main image_np (Finite f) = Inl (SystemExit 1)
              \<and> contrast_main rgb_np (Finite f) = Inl (SystemExit 1))"
    unfolding m
    by (cases "round_double (f * 10)")
      (simp_all add: brightness_main_def contrast_main_def trunc)
  have near: "\<exists>p. fmul (Finite f) (Finite 10) = Finite p
               \<and> \<bar>p - f * 10\<bar> \<le> ulp (f * 10) / 2
               \<and> \<lfloor>f * 10\<rfloor> \<le> \<lfloor>p\<rfloor> \<and> \<lfloor>p\<rfloor> \<le> \<lceil>f * 10\<rceil>" if small: "f * 10 < 2 ^ 53"
  proof -
    from round_double_between [OF x small] obtain p where
      p: "round_double (f * 10) = Finite p" and lo: "real_of_int \<lfloor>f * 10\<rfloor> \<le> p"
      and hi: "p \<le> real_of_int \<lceil>f * 10\<rceil>" by blast
    have "\<lfloor>f * 10\<rfloor> \<le> \<lfloor>p\<rfloor>" using lo by (simp add: le_floor_iff)
    moreover have "\<lfloor>p\<rfloor> \<le> \<lceil>f * 10\<rceil>" using hi by (simp add: floor_le_iff)
    ultimately show ?thesis
      using p round_double_near [OF p] m by simp
  qed
  have exact: "fmul (Finite f) (Finite 10) = Finite (f * 10)" if "is_double (f * 10)"
    using that by (simp add: is_double_def)
  have over: "fmul (Finite f) (Finite 10) = PosInf" if "2 ^ 1024 \<le> f * 10"
    using round_double_overflow [OF that] by simp
  from field near exact over show ?thesis by blast
qed

theorem factor_field_truncates_witness:
  "is_double (5404319552844595 / 2 ^ 54)
   \<and> (0::real) < 5404319552844595 / 2 ^ 54
   \<and> (5404319552844595 / 2 ^ 54 * 10 :: real) < 2 ^ 53
   \<and> \<lfloor>5404319552844595 / 2 ^ 54 * 10 :: real\<rfloor> = 2
   \<and> fmul (Finite (5404319552844595 / 2 ^ 54)) (Finite 10) = Finite 3
   \<and> (\<exists>env. brightness_main (GrayImage [[7]]) (Finite (5404319552844595 / 2 ^ 54)) = Inr env
          \<and> factor env = 3)
   \<and> (\<exists>env. contrast_main [[(1, 2, 3)]] (Finite (5404319552844595 / 2 ^ 54)) = Inr env
          \<and> factor env = 3)
   \<and> is_double (3 / 2) \<and> is_double (3 / 2 * 10)
   \<and> (\<exists>env. brightness_main (GrayImage [[7]]) (Finite (3 / 2)) = Inr env \<and> factor env = 15)
   \<and> is_double (2 ^ 1023) \<and> (2 ^ 1024 :: real) \<le> 2 ^ 1023 * 10
   \<and> brightness_main (GrayImage [[7]]) (Finite (2 ^ 1023)) = Inl (SystemExit 1)
   \<and> contrast_main [[(1, 2, 3)]] (Finite (2 ^ 1023)) = Inl (SystemExit 1)"
proof -
  let ?f = "5404319552844595 / 2 ^ 54 :: real"
  have u1: "ulp ?f = 1 / 2 ^ 54" by code_simp
  have d1: "is_double ?f"
    unfolding is_double_def round_double_def Let_def u1 by (simp add: py_round_def)
  have p1: "(0::real) < ?f" by simp
  have s1: "?f * 10 < 2 ^ 53" by simp
  have fl: "\<lfloor>?f * 10\<rfloor> = 2" by simp
  have u2: "ulp (?f * 10) = 1 / 2 ^ 51" by code_simp
  have r1: "round_double (?f * 10) = Finite 3"
    unfolding round_double_def Let_def u2 by (simp add: py_round_def)
  have m1: "fmul (Finite ?f) (Finite 10) = Finite 3"
    unfolding fmul.simps by (rule r1)
  note th1 = factor_field_truncates [OF d1 p1, of "GrayImage [[7]]" "[[(1, 2, 3)]]"]
  from th1 have "(\<exists>env. brightness_main (GrayImage [[7]]) (Finite ?f) = Inr env \<and> factor env = \<lfloor>3::real\<rfloor>)
      \<and> (\<exists>env. contrast_main [[(1, 2, 3)]] (Finite ?f) = Inr env \<and> factor env = \<lfloor>3::real\<rfloor>)"
    unfolding m1 by simp
  then have b1: "\<exists>env. brightness_main (GrayImage [[7]]) (Finite ?f) = Inr env \<and> factor env = 3"
    and c1: "\<exists>env. contrast_main [[(1, 2, 3)]] (Finite ?f) = Inr env \<and> factor env = 3"
    by simp_all
  have u3: "ulp (3 / 2) = 1 / 2 ^ 52" by code_simp
  have d2: "is_double (3 / 2)"
    unfolding is_double_def round_double_def Let_def u3 by (simp add: py_round_def)
  have u4: "ulp (3 / 2 * 10) = 1 / 2 ^ 49" by code_simp
  have d3: "is_double (3 / 2 * 10)"
    unfolding is_double_def round_double_def Let_def u4 by (simp add: py_round_def)
  have p2: "(0::real) < 3 / 2" by simp
  note th2 = factor_field_truncates [OF d2 p2, of "GrayImage [[7]]" "[[(1, 2, 3)]]"]
  from th2 d3 have m2: "fmul (Finite (3 / 2)) (Finite 10) = Finite (3 / 2 * 10)" by blast
  from th2 have "\<exists>env. brightness_main (GrayImage [[7]]) (Finite (3 / 2)) = Inr env
      \<and> factor env = \<lfloor>3 / 2 * 10 :: real\<rfloor>"
    unfolding m2 by simp
  moreover have "\<lfloor>3 / 2 * 10 :: real\<rfloor> = 15" by simp
  ultimately have b2: "\<exists>env. brightness_main (GrayImage [[7]]) (Finite (3 / 2)) = Inr env
      \<and> factor env = 15"
    by simp
  have "exponent2 (2 ^ 1023) = 1023"
    by (rule exponent2_unique) simp_all
  then have u5: "ulp (2 ^ 1023) = 2 ^ 971" by (simp add: ulp_def)
  have d4: "is_double (2 ^ 1023)"
    unfolding is_double_def round_double_def Let_def u5 by (simp add: py_round_def)
  have p3: "(0::real) < 2 ^ 1023" by simp
  have o3: "(2 ^ 1024 :: real) \<le> 2 ^ 1023 * 10" by simp
  note th3 = factor_field_truncates [OF d4 p3, of "GrayImage [[7]]" "[[(1, 2, 3)]]"]
  from th3 o3 have m3: "fmul (Finite (2 ^ 1023)) (Finite 10) = PosInf" by blast
  from th3 have b3: "brightness_main (GrayImage [[7]]) (Finite (2 ^ 1023)) = Inl (SystemExit 1)"
    and c3: "contrast_main [[(1, 2, 3)]] (Finite (2 ^ 1023)) = Inl (SystemExit 1)"
    unfolding m3 by simp_all
  from d1 p1 s1 fl m1 b1 c1 d2 d3 b2 d4 o3 b3 c3 show ?thesis by (simp only: simp_thms)
qed

subsection \<open>Indexing, sequencing and the blur loops\<close>

lemma ebind_Inr [simp]: "ebind (Inr x) f = f x"
  by (simp add: ebind_def)

lemma ebind_Inl [simp]: "ebind (Inl e) f = Inl e"
  by (simp add: ebind_def)

lemma ebind_eq_Inr: "ebind m f = Inr y \<longleftrightarrow> (\<exists>x. m = Inr x \<and> f x = Inr y)"
  by (cases m) simp_all

lemma py_index_less: "py_index n i = Inr k \<Longrightarrow> k < n"
  by (auto simp: py_index_def split: if_splits)

lemma py_index_nonneg: "0 \<le> i \<Longrightarrow> i < int n \<Longrightarrow> py_index n i = Inr (nat i)"
  by (simp add: py_index_def)

lemma py_index_wrap:
  assumes "- int n \<le> k" "k < int n"
  shows "py_index n k = Inr (nat (k mod int n))"
proof (cases "0 \<le> k")
  case True
  with assms show ?thesis by (simp add: py_index_def)
next
  case False
  have "k mod int n = (k + int n) mod int n" by simp
  also have "\<dots> = k + int n"
    using assms False by (intro mod_pos_pos_trivial) simp_all
  finally have "k mod int n = k + int n" .
  with False assms show ?thesis by (simp add: py_index_def)
qed


lemma has_shape_row: "has_shape h w a \<Longrightarrow> r < h \<Longrightarrow> length (a ! r) = w"
  by (auto simp: has_shape_def list_all_length)

lemma has_shape_length: "has_shape h w a \<Longrightarrow> length a = h"
  by (simp add: has_shape_def)

lemma has_shape_update:
  "has_shape h w a \<Longrightarrow> has_shape h w (a[r := (a ! r)[c := v]])"
  by (auto simp: has_shape_def list_all_length) (case_tac "r = n"; simp)

lemma read2_index:
  assumes "has_shape h w a" "py_index h i = Inr r" "py_index w j = Inr c"
  shows "read2 a i j = Inr (a ! r ! c)"
proof -
  from assms(2) have "r < h" by (rule py_index_less)
  with assms(1) have "length (a ! r) = w" by (rule has_shape_row)
  with assms show ?thesis
    by (simp add: read2_def py_get_def has_shape_length)
qed

lemma write2_index:
  assumes "has_shape h w a" "py_index h i = Inr r" "py_index w j = Inr c"
  shows "write2 a i j v = Inr (a[r := (a ! r)[c := v]])"
proof -
  from assms(2) have "r < h" by (rule py_index_less)
  with assms(1) have "length (a ! r) = w" by (rule has_shape_row)
  with assms show ?thesis
    by (simp add: write2_def has_shape_length)
qed

lemma traverse_Inr:
  "(\<And>x. x \<in> set xs \<Longrightarrow> f x = Inr (g x)) \<Longrightarrow> traverse f xs = Inr (map g xs)"
  by (induction xs) simp_all

lemma traverse_results:
  "traverse f xs = Inr ys \<Longrightarrow> length ys = length xs \<and> (\<forall>k<length xs. f (xs ! k) = Inr (ys ! k))"
proof (induction xs arbitrary: ys)
  case Nil
  then show ?case by simp
next
  case (Cons x xs)
  from Cons.prems obtain y ys' where y: "f x = Inr y" and t: "traverse f xs = Inr ys'"
    and ys: "ys = y # ys'"
    by (auto split: sum.splits)
  from Cons.IH [OF t] have "length ys' = length xs" "\<forall>k<length xs. f (xs ! k) = Inr (ys' ! k)"
    by simp_all
  with y ys show ?case by (auto simp: nth_Cons split: nat.splits)
qed

lemma traverse_set:
  "traverse f xs = Inr ys \<Longrightarrow> y \<in> set ys \<Longrightarrow> \<exists>x\<in>set xs. f x = Inr y"
  by (drule traverse_results) (metis in_set_conv_nth)

lemma uint8_range: "in_range (uint8 v)"
  by (simp add: uint8_def in_range_def)

lemma uint8_id: "in_range v \<Longrightarrow> uint8 v = v"
  by (simp add: uint8_def in_range_def)

lemma clamp_uint8: "uint8 (max 0 (min 255 (uint8 v))) = uint8 v"
proof -
  have "in_range (uint8 v)" by (rule uint8_range)
  then have "max 0 (min 255 (uint8 v)) = uint8 v" by (simp add: in_range_def)
  then show ?thesis by (simp add: uint8_id uint8_range)
qed

text \<open>What one pass of the loop body does to \<open>blurred\<close>: one cell, addressed by
  \<open>(i, j)\<close>, gets a value in [0,255].\<close>

lemma blur_cell_result:
  assumes "blur_cell image_array i j b = Inr b'"
  shows "\<exists>r c s. py_index (length b) i = Inr r \<and> py_index (length (b ! r)) j = Inr c
           \<and> sum_val image_array i j = Inr s
           \<and> b' = b[r := (b ! r)[c := uint8 (py_round (real_of_int s / 9))]]"
proof -
  from assms obtain s b1 v where s: "sum_val image_array i j = Inr s"
    and w1: "write2 b i j (uint8 (py_round (real_of_int s / 9))) = Inr b1"
    and rd: "read2 b1 i j = Inr v"
    and w2: "write2 b1 i j (uint8 (max 0 (min 255 v))) = Inr b'"
    unfolding blur_cell_def ebind_eq_Inr by blast
  let ?v1 = "uint8 (py_round (real_of_int s / 9))"
  from w1 obtain r c where r: "py_index (length b) i = Inr r"
    and c: "py_index (length (b ! r)) j = Inr c"
    and b1: "b1 = b[r := (b ! r)[c := ?v1]]"
    unfolding write2_def ebind_eq_Inr by auto
  from r have rl: "r < length b" by (rule py_index_less)
  from c have cl: "c < length (b ! r)" by (rule py_index_less)
  have len1: "length b1 = length b" "length (b1 ! r) = length (b ! r)"
    using rl by (simp_all add: b1)
  have "b1 ! r ! c = ?v1" using rl cl by (simp add: b1)
  with rd r c len1 have v: "v = ?v1"
    by (simp add: read2_def py_get_def)
  from w2 r c len1 have "b' = b1[r := (b1 ! r)[c := uint8 (max 0 (min 255 v))]]"
    by (simp add: write2_def)
  then have "b' = b[r := (b ! r)[c := ?v1]]"
    using rl by (simp add: b1 v clamp_uint8)
  with r c s show ?thesis by blast
qed


lemma valid_gray_update:
  assumes "valid_gray b" "in_range v"
  shows "valid_gray (b[r := (b ! r)[c := v]])"
  unfolding valid_gray_def list_all_length
proof (intro allI impI)
  fix n k
  assume n: "n < length (b[r := (b ! r)[c := v]])"
    and k: "k < length (b[r := (b ! r)[c := v]] ! n)"
  from assms(1) have old: "\<And>n k. n < length b \<Longrightarrow> k < length (b ! n) \<Longrightarrow> in_range (b ! n ! k)"
    by (simp add: valid_gray_def list_all_length)
  show "in_range (b[r := (b ! r)[c := v]] ! n ! k)"
  proof (cases "r = n")
    case True
    with n k have "k < length (b ! n)" by simp
    with True n assms(2) old show ?thesis
      by (cases "k = c") simp_all
  next
    case False
    with n k old show ?thesis by simp
  qed
qed

lemma blur_cell_frame:
  assumes "blur_cell image_array i j b = Inr b'"
  shows "length b' = length b"
    and "r < length b \<Longrightarrow> length (b' ! r) = length (b ! r)"
    and "r < length b \<Longrightarrow> c < length (b ! r) \<Longrightarrow>
           \<not> (py_index (length b) i = Inr r \<and> py_index (length (b ! r)) j = Inr c) \<Longrightarrow>
           b' ! r ! c = b ! r ! c"
    and "valid_gray b \<Longrightarrow> valid_gray b'"
proof -
  from blur_cell_result [OF assms] obtain r0 c0 s where
    r0: "py_index (length b) i = Inr r0" and c0: "py_index (length (b ! r0)) j = Inr c0"
    and b': "b' = b[r0 := (b ! r0)[c0 := uint8 (py_round (real_of_int s / 9))]]"
    by blast
  show "length b' = length b" by (simp add: b')
  show "length (b' ! r) = length (b ! r)" if "r < length b"
    using that by (cases "r = r0") (simp_all add: b')
  show "b' ! r ! c = b ! r ! c"
    if "r < length b" "c < length (b ! r)"
      "\<not> (py_index (length b) i = Inr r \<and> py_index (length (b ! r)) j = Inr c)"
  proof (cases "r = r0")
    case True
    with that r0 c0 have "c \<noteq> c0" by auto
    with True that show ?thesis by (simp add: b')
  next
    case False
    then show ?thesis by (simp add: b')
  qed
  show "valid_gray b'" if "valid_gray b"
    unfolding b' using that uint8_range by (rule valid_gray_update)
qed

lemma blur_cols_frame:
  assumes "blur_cols image_array i js b = Inr b'"
  shows "length b' = length b
     \<and> (\<forall>r<length b. length (b' ! r) = length (b ! r))
     \<and> (\<forall>r<length b. \<forall>c<length (b ! r).
           (\<forall>j\<in>set js. \<not> (py_index (length b) i = Inr r \<and> py_index (length (b ! r)) j = Inr c))
           \<longrightarrow> b' ! r ! c = b ! r ! c)
     \<and> (valid_gray b \<longrightarrow> valid_gray b')"
  using assms
proof (induction js arbitrary: b)
  case Nil
  then show ?case by simp
next
  case (Cons j js)
  from Cons.prems obtain b1 where c1: "blur_cell image_array i j b = Inr b1"
    and rest: "blur_cols image_array i js b1 = Inr b'"
    by (auto simp: ebind_eq_Inr)
  note f1 = blur_cell_frame [OF c1]
  note ih = Cons.IH [OF rest]
  have l: "length b' = length b" using ih f1(1) by simp
  have rl: "\<forall>r<length b. length (b' ! r) = length (b ! r)"
    using ih f1(1) f1(2) by simp
  have fr: "b' ! r ! c = b ! r ! c"
    if "r < length b" "c < length (b ! r)"
      "\<forall>j'\<in>set (j # js). \<not> (py_index (length b) i = Inr r \<and> py_index (length (b ! r)) j' = Inr c)"
    for r c
  proof -
    from that f1 have r1: "r < length b1" "c < length (b1 ! r)" by simp_all
    from that f1 have "\<forall>j'\<in>set js. \<not> (py_index (length b1) i = Inr r
         \<and> py_index (length (b1 ! r)) j' = Inr c)" by simp
    with ih r1 have "b' ! r ! c = b1 ! r ! c" by blast
    also have "\<dots> = b ! r ! c" using that by (intro f1(3)) simp_all
    finally show ?thesis .
  qed
  have v: "valid_gray b \<longrightarrow> valid_gray b'" using ih f1(4) by blast
  from l rl fr v show ?case by blast
qed

lemma blur_rows_frame:
  assumes "blur_rows image_array is js b = Inr b'"
  shows "length b' = length b
     \<and> (\<forall>r<length b. length (b' ! r) = length (b ! r))
     \<and> (\<forall>r<length b. \<forall>c<length (b ! r).
           (\<forall>i\<in>set is. \<forall>j\<in>set js.
               \<not> (py_index (length b) i = Inr r \<and> py_index (length (b ! r)) j = Inr c))
           \<longrightarrow> b' ! r ! c = b ! r ! c)
     \<and> (valid_gray b \<longrightarrow> valid_gray b')"
  using assms
proof (induction "is" arbitrary: b)
  case Nil
  then show ?case by simp
next
  case (Cons i "is")
  from Cons.prems obtain b1 where c1: "blur_cols image_array i js b = Inr b1"
    and rest: "blur_rows image_array is js b1 = Inr b'"
    by (auto simp: ebind_eq_Inr)
  note f1 = blur_cols_frame [OF c1]
  note ih = Cons.IH [OF rest]
  have l: "length b' = length b" using ih f1 by simp
  have rl: "\<forall>r<length b. length (b' ! r) = length (b ! r)"
    using ih f1 by simp
  have fr: "b' ! r ! c = b ! r ! c"
    if "r < length b" "c < length (b ! r)"
      "\<forall>i'\<in>set (i # is). \<forall>j\<in>set js.
          \<not> (py_index (length b) i' = Inr r \<and> py_index (length (b ! r)) j = Inr c)"
    for r c
  proof -
    from that f1 have r1: "r < length b1" "c < length (b1 ! r)" by simp_all
    from that f1 have "\<forall>i'\<in>set is. \<forall>j\<in>set js. \<not> (py_index (length b1) i' = Inr r
         \<and> py_index (length (b1 ! r)) j = Inr c)" by simp
    with ih r1 have "b' ! r ! c = b1 ! r ! c" by blast
    also have "\<dots> = b ! r ! c" using that f1 by simp
    finally show ?thesis .
  qed
  have v: "valid_gray b \<longrightarrow> valid_gray b'" using ih f1 by blast
  from l rl fr v show ?case by blast
qed


lemma py_index_wrap_iff:
  "0 \<le> j \<Longrightarrow> j < int n \<Longrightarrow> py_index n j = Inr c \<longleftrightarrow> int c = j"
  by (auto simp: py_index_def)

lemma sum_val_ok:
  assumes "has_shape h w a" "0 \<le> i" "i + 1 < int h" "0 \<le> j" "j + 1 < int w"
  shows "sum_val a i j = Inr (wrapped_sum a h w i j)"
proof -
  have rd: "(case p of (di, dj) \<Rightarrow> read2 a (i + di) (j + dj))
          = Inr (case p of (di, dj) \<Rightarrow> a ! nat ((i + di) mod int h) ! nat ((j + dj) mod int w))"
    if "p \<in> set offsets" for p
  proof -
    obtain di dj where p: "p = (di, dj)" by (cases p)
    with that have d: "- 1 \<le> di" "di \<le> 1" "- 1 \<le> dj" "dj \<le> 1"
      by (auto simp: offsets_def)
    have "py_index h (i + di) = Inr (nat ((i + di) mod int h))"
      using assms d by (intro py_index_wrap) simp_all
    moreover have "py_index w (j + dj) = Inr (nat ((j + dj) mod int w))"
      using assms d by (intro py_index_wrap) simp_all
    ultimately show ?thesis
      using read2_index [OF assms(1)] by (simp add: p)
  qed
  have "traverse (\<lambda>(di, dj). read2 a (i + di) (j + dj)) offsets
          = Inr (map (\<lambda>(di, dj). a ! nat ((i + di) mod int h) ! nat ((j + dj) mod int w)) offsets)"
    by (rule traverse_Inr) (rule rd)
  then show ?thesis by (simp add: sum_val_def wrapped_sum_def)
qed

lemma blur_cell_ok:
  assumes "has_shape h w a" "has_shape h w b" "0 \<le> i" "i + 1 < int h" "0 \<le> j" "j + 1 < int w"
  shows "blur_cell a i j b = Inr (b[nat i := (b ! nat i)[nat j := blur_value a h w i j]])"
proof -
  let ?v = "uint8 (py_round (real_of_int (wrapped_sum a h w i j) / 9))"
  let ?b1 = "b[nat i := (b ! nat i)[nat j := ?v]]"
  have pi: "py_index h i = Inr (nat i)" and pj: "py_index w j = Inr (nat j)"
    using assms by (simp_all add: py_index_nonneg)
  have s1: "has_shape h w ?b1" using assms(2) by (rule has_shape_update)
  have ni: "nat i < length b" "nat j < length (b ! nat i)"
    using assms by (simp_all add: has_shape_length has_shape_row)
  have w1: "write2 b i j ?v = Inr ?b1"
    using assms(2) pi pj by (rule write2_index)
  have "read2 ?b1 i j = Inr (?b1 ! nat i ! nat j)"
    using s1 pi pj by (rule read2_index)
  then have rd: "read2 ?b1 i j = Inr ?v" using ni by simp
  have "write2 ?b1 i j (uint8 (max 0 (min 255 ?v))) = Inr (?b1[nat i := (?b1 ! nat i)[nat j := ?v]])"
    using write2_index [OF s1 pi pj] by (simp add: clamp_uint8)
  also have "?b1[nat i := (?b1 ! nat i)[nat j := ?v]] = ?b1"
    using ni by simp
  finally have w2: "write2 ?b1 i j (uint8 (max 0 (min 255 ?v))) = Inr ?b1" .
  show ?thesis
    unfolding blur_cell_def blur_value_def
    by (simp only: sum_val_ok [OF assms(1,3-6)] ebind_Inr w1 rd w2)
qed

lemma blur_cols_ok:
  assumes "has_shape h w a" "0 \<le> i" "i + 1 < int h"
    and "has_shape h w b" "\<forall>j\<in>set js. 0 \<le> j \<and> j + 1 < int w"
  shows "\<exists>b'. blur_cols a i js b = Inr b' \<and> has_shape h w b'
           \<and> (\<forall>r<h. \<forall>c<w. b' ! r ! c =
                 (if int r = i \<and> int c \<in> set js then blur_value a h w i (int c) else b ! r ! c))"
  using assms(4,5)
proof (induction js arbitrary: b)
  case Nil
  then show ?case by simp
next
  case (Cons j js)
  let ?b1 = "b[nat i := (b ! nat i)[nat j := blur_value a h w i j]]"
  from Cons.prems have j: "0 \<le> j" "j + 1 < int w" by simp_all
  have c1: "blur_cell a i j b = Inr ?b1"
    using assms(1) Cons.prems(1) assms(2,3) j by (rule blur_cell_ok)
  have s1: "has_shape h w ?b1" using Cons.prems(1) by (rule has_shape_update)
  from Cons.IH [OF s1] Cons.prems(2)
  obtain b' where run: "blur_cols a i js ?b1 = Inr b'" and s': "has_shape h w b'"
    and cells: "\<forall>r<h. \<forall>c<w. b' ! r ! c =
                 (if int r = i \<and> int c \<in> set js then blur_value a h w i (int c) else ?b1 ! r ! c)"
    by auto
  have "b' ! r ! c = (if int r = i \<and> int c \<in> set (j # js) then blur_value a h w i (int c) else b ! r ! c)"
    if "r < h" "c < w" for r c
  proof -
    have lb: "length b = h" "length (b ! r) = w"
      using Cons.prems(1) that by (simp_all add: has_shape_length has_shape_row)
    have "?b1 ! r ! c = (if int r = i \<and> int c = j then blur_value a h w i j else b ! r ! c)"
    proof (cases "r = nat i")
      case True
      with lb that assms(2) j show ?thesis
        by (cases "c = nat j") auto
    next
      case False
      with assms(2) show ?thesis by auto
    qed
    with cells that show ?thesis by auto
  qed
  with c1 run s' show ?case by simp
qed

lemma blur_rows_ok:
  assumes "has_shape h w a" "\<forall>j\<in>set js. 0 \<le> j \<and> j + 1 < int w"
    and "has_shape h w b" "\<forall>i\<in>set is. 0 \<le> i \<and> i + 1 < int h"
  shows "\<exists>b'. blur_rows a is js b = Inr b' \<and> has_shape h w b'
           \<and> (\<forall>r<h. \<forall>c<w. b' ! r ! c =
                 (if int r \<in> set is \<and> int c \<in> set js then blur_value a h w (int r) (int c)
                  else b ! r ! c))"
  using assms(3,4)
proof (induction "is" arbitrary: b)
  case Nil
  then show ?case by simp
next
  case (Cons i "is")
  from Cons.prems have i: "0 \<le> i" "i + 1 < int h" by simp_all
  from blur_cols_ok [OF assms(1) i Cons.prems(1) assms(2)]
  obtain b1 where c1: "blur_cols a i js b = Inr b1" and s1: "has_shape h w b1"
    and cells1: "\<forall>r<h. \<forall>c<w. b1 ! r ! c =
                 (if int r = i \<and> int c \<in> set js then blur_value a h w i (int c) else b ! r ! c)"
    by blast
  from Cons.IH [OF s1] Cons.prems(2)
  obtain b' where run: "blur_rows a is js b1 = Inr b'" and s': "has_shape h w b'"
    and cells: "\<forall>r<h. \<forall>c<w. b' ! r ! c =
                 (if int r \<in> set is \<and> int c \<in> set js then blur_value a h w (int r) (int c)
                  else b1 ! r ! c)"
    by auto
  have "b' ! r ! c = (if int r \<in> set (i # is) \<and> int c \<in> set js
                       then blur_value a h w (int r) (int c) else b ! r ! c)"
    if "r < h" "c < w" for r c
    using cells cells1 that by auto
  with c1 run s' show ?case by simp
qed

subsection \<open>The result of \<open>apply_blur\<close>\<close>

lemma width_of_shape: "has_shape h w a \<Longrightarrow> 0 < h \<Longrightarrow> width_of a = w"
  by (cases a) (auto simp: has_shape_def width_of_def)

lemma apply_blur_region:
  assumes "has_shape h w a" "0 \<le> sr" "0 \<le> sc"
  shows "\<exists>out. apply_blur a (Some (sr, sc, bh, bw)) = Inr out \<and> has_shape h w out
     \<and> (\<forall>r<h. \<forall>c<w. out ! r ! c =
           (if sr \<le> int r \<and> int r < min (sr + bh) (int h - 1)
               \<and> sc \<le> int c \<and> int c < min (sc + bw) (int w - 1)
            then blur_value a h w (int r) (int c) else a ! r ! c))"
proof (cases "h = 0")
  case True
  with assms have "a = []" by (simp add: has_shape_def)
  with True assms show ?thesis by (simp add: apply_blur_def has_shape_def)
next
  case False
  then have wd: "width_of a = w" using assms(1) by (simp add: width_of_shape)
  have len: "length a = h" using assms(1) by (rule has_shape_length)
  let ?is = "[sr..min (sr + bh) (int h - 1) - 1]"
  let ?js = "[sc..min (sc + bw) (int w - 1) - 1]"
  have run: "apply_blur a (Some (sr, sc, bh, bw)) = blur_rows a ?is ?js a"
    by (simp add: apply_blur_def wd len)
  have js: "\<forall>j\<in>set ?js. 0 \<le> j \<and> j + 1 < int w" using assms(3) by auto
  have "is": "\<forall>i\<in>set ?is. 0 \<le> i \<and> i + 1 < int h" using assms(2) by auto
  from blur_rows_ok [OF assms(1) js assms(1) "is"]
  obtain out where o: "blur_rows a ?is ?js a = Inr out" "has_shape h w out"
    and cells: "\<forall>r<h. \<forall>c<w. out ! r ! c =
                 (if int r \<in> set ?is \<and> int c \<in> set ?js then blur_value a h w (int r) (int c)
                  else a ! r ! c)"
    by blast
  have "out ! r ! c = (if sr \<le> int r \<and> int r < min (sr + bh) (int h - 1)
               \<and> sc \<le> int c \<and> int c < min (sc + bw) (int w - 1)
            then blur_value a h w (int r) (int c) else a ! r ! c)" if "r < h" "c < w" for r c
    using cells that by auto
  with run o show ?thesis by simp
qed

lemma apply_blur_None:
  assumes "has_shape h w a"
  shows "\<exists>out. apply_blur a None = Inr out \<and> has_shape h w out
     \<and> (\<forall>r<h. \<forall>c<w. out ! r ! c =
           (if 1 \<le> r \<and> r + 1 < h \<and> 1 \<le> c \<and> c + 1 < w
            then blur_value a h w (int r) (int c) else a ! r ! c))"
proof (cases "h = 0")
  case True
  with assms have "a = []" by (simp add: has_shape_def)
  with True assms show ?thesis by (simp add: apply_blur_def has_shape_def)
next
  case False
  then have wd: "width_of a = w" using assms(1) by (simp add: width_of_shape)
  have len: "length a = h" using assms(1) by (rule has_shape_length)
  let ?is = "[1..int h - 1 - 1]"
  let ?js = "[1..int w - 1 - 1]"
  have run: "apply_blur a None = blur_rows a ?is ?js a"
    by (simp add: apply_blur_def wd len)
  have js: "\<forall>j\<in>set ?js. 0 \<le> j \<and> j + 1 < int w" by auto
  have "is": "\<forall>i\<in>set ?is. 0 \<le> i \<and> i + 1 < int h" by auto
  from blur_rows_ok [OF assms(1) js assms(1) "is"]
  obtain out where o: "blur_rows a ?is ?js a = Inr out" "has_shape h w out"
    and cells: "\<forall>r<h. \<forall>c<w. out ! r ! c =
                 (if int r \<in> set ?is \<and> int c \<in> set ?js then blur_value a h w (int r) (int c)
                  else a ! r ! c)"
    by blast
  have "out ! r ! c = (if 1 \<le> r \<and> r + 1 < h \<and> 1 \<le> c \<and> c + 1 < w
            then blur_value a h w (int r) (int c) else a ! r ! c)" if "r < h" "c < w" for r c
    using cells that by auto
  with run o show ?thesis by simp
qed

lemma apply_blur_frame:
  assumes "has_shape h w a" "apply_blur a (Some (sr, sc, bh, bw)) = Inr out"
    and "r < h" "c < w"
    and "\<forall>i j. sr \<le> i \<and> i < sr + bh \<and> sc \<le> j \<and> j < sc + bw
            \<longrightarrow> \<not> (py_index h i = Inr r \<and> py_index w j = Inr c)"
  shows "out ! r ! c = a ! r ! c"
proof -
  let ?is = "[sr..min (sr + bh) (int (length a) - 1) - 1]"
  let ?js = "[sc..min (sc + bw) (int (width_of a) - 1) - 1]"
  from assms(2) have run: "blur_rows a ?is ?js a = Inr out"
    by (simp add: apply_blur_def)
  have len: "length a = h" "length (a ! r) = w"
    using assms(1,3) by (simp_all add: has_shape_length has_shape_row)
  have "\<forall>i\<in>set ?is. \<forall>j\<in>set ?js.
          \<not> (py_index (length a) i = Inr r \<and> py_index (length (a ! r)) j = Inr c)"
    using assms(5) len by auto
  with blur_rows_frame [OF run] assms(3,4) len show ?thesis by simp
qed

lemma apply_blur_valid:
  assumes "valid_gray a" "apply_blur a region = Inr out"
  shows "valid_gray out"
proof -
  from assms(2) obtain "is" js where "blur_rows a is js a = Inr out"
    by (auto simp: apply_blur_def Let_def split: option.splits prod.splits)
  from blur_rows_frame [OF this] assms(1) show ?thesis by simp
qed



subsection \<open>Border and frame of the box blur\<close>

text \<open>
  C7: for a rectangular single-channel buffer of height \<open>h\<close> and width \<open>w\<close>, the blur
  with region \<open>None\<close> returns a buffer of the same shape whose cells in row 0, row
  \<open>h - 1\<close>, column 0 and column \<open>w - 1\<close> equal those of the input.  With an explicit
  region, every cell that no index pair of the region addresses keeps the input value; for
  a region that starts at non-negative coordinates the blur returns, and these are the
  cells outside the rectangle of the region.
\<close>

theorem blur_border_kept:
  assumes "has_shape h w image_array"
  shows "(\<exists>out. apply_blur image_array None = Inr out \<and> has_shape h w out
            \<and> (\<forall>i<h. \<forall>j<w. i = 0 \<or> i = h - 1 \<or> j = 0 \<or> j = w - 1
                  \<longrightarrow> out ! i ! j = image_array ! i ! j))
     \<and> (\<forall>out. apply_blur image_array (Some (sr, sc, bh, bw)) = Inr out \<longrightarrow>
            (\<forall>r<h. \<forall>c<w.
               (\<forall>i j. sr \<le> i \<and> i < sr + bh \<and> sc \<le> j \<and> j < sc + bw
                      \<longrightarrow> \<not> (py_index h i = Inr r \<and> py_index w j = Inr c))
               \<longrightarrow> out ! r ! c = image_array ! r ! c))
     \<and> (0 \<le> sr \<and> 0 \<le> sc \<longrightarrow>
          (\<exists>out. apply_blur image_array (Some (sr, sc, bh, bw)) = Inr out \<and> has_shape h w out
            \<and> (\<forall>r<h. \<forall>c<w.
                  \<not> (sr \<le> int r \<and> int r < sr + bh \<and> sc \<le> int c \<and> int c < sc + bw)
                  \<longrightarrow> out ! r ! c = image_array ! r ! c)))"
proof (intro conjI)
  from apply_blur_None [OF assms]
  obtain out where o: "apply_blur image_array None = Inr out" "has_shape h w out"
    and cells: "\<forall>r<h. \<forall>c<w. out ! r ! c =
           (if 1 \<le> r \<and> r + 1 < h \<and> 1 \<le> c \<and> c + 1 < w
            then blur_value image_array h w (int r) (int c) else image_array ! r ! c)"
    by blast
  have "out ! i ! j = image_array ! i ! j"
    if "i < h" "j < w" "i = 0 \<or> i = h - 1 \<or> j = 0 \<or> j = w - 1" for i j
  proof -
    from that have n: "\<not> (1 \<le> i \<and> i + 1 < h \<and> 1 \<le> j \<and> j + 1 < w)" by auto
    from cells that have "out ! i ! j =
           (if 1 \<le> i \<and> i + 1 < h \<and> 1 \<le> j \<and> j + 1 < w
            then blur_value image_array h w (int i) (int j) else image_array ! i ! j)" by blast
    with n show ?thesis by (simp only: if_False)
  qed
  with o show "\<exists>out. apply_blur image_array None = Inr out \<and> has_shape h w out
            \<and> (\<forall>i<h. \<forall>j<w. i = 0 \<or> i = h - 1 \<or> j = 0 \<or> j = w - 1
                  \<longrightarrow> out ! i ! j = image_array ! i ! j)"
    by blast
next
  show "\<forall>out. apply_blur image_array (Some (sr, sc, bh, bw)) = Inr out \<longrightarrow>
            (\<forall>r<h. \<forall>c<w.
               (\<forall>i j. sr \<le> i \<and> i < sr + bh \<and> sc \<le> j \<and> j < sc + bw
                      \<longrightarrow> \<not> (py_index h i = Inr r \<and> py_index w j = Inr c))
               \<longrightarrow> out ! r ! c = image_array ! r ! c)"
    using apply_blur_frame [OF assms] by blast
next
  show "0 \<le> sr \<and> 0 \<le> sc \<longrightarrow>
          (\<exists>out. apply_blur image_array (Some (sr, sc, bh, bw)) = Inr out \<and> has_shape h w out
            \<and> (\<forall>r<h. \<forall>c<w.
                  \<not> (sr \<le> int r \<and> int r < sr + bh \<and> sc \<le> int c \<and> int c < sc + bw)
                  \<longrightarrow> out ! r ! c = image_array ! r ! c))"
  proof
    assume nn: "0 \<le> sr \<and> 0 \<le> sc"
    then have "0 \<le> sr" "0 \<le> sc" by simp_all
    from apply_blur_region [OF assms this, of bh bw]
    obtain out where o: "apply_blur image_array (Some (sr, sc, bh, bw)) = Inr out"
        "has_shape h w out"
      and cells: "\<forall>r<h. \<forall>c<w. out ! r ! c =
           (if sr \<le> int r \<and> int r < min (sr + bh) (int h - 1)
               \<and> sc \<le> int c \<and> int c < min (sc + bw) (int w - 1)
            then blur_value image_array h w (int r) (int c) else image_array ! r ! c)"
      by blast
    have "out ! r ! c = image_array ! r ! c"
      if "r < h" "c < w" "\<not> (sr \<le> int r \<and> int r < sr + bh \<and> sc \<le> int c \<and> int c < sc + bw)"
      for r c
      using cells that by auto
    with o show "\<exists>out. apply_blur image_array (Some (sr, sc, bh, bw)) = Inr out \<and> has_shape h w out
            \<and> (\<forall>r<h. \<forall>c<w.
                  \<not> (sr \<le> int r \<and> int r < sr + bh \<and> sc \<le> int c \<and> int c < sc + bw)
                  \<longrightarrow> out ! r ! c = image_array ! r ! c)"
      by blast
  qed
qed

lemma blur_example:
  "apply_blur [[1, 2, 3, 4], [4, 5, 6, 7], [7, 8, 9, 10], [90, 100, 110, 120]] (Some (0, 0, 2, 2))
     = Inr [[37, 36, 3, 4], [5, 5, 6, 7], [7, 8, 9, 10], [90, 100, 110, 120]]"
  by code_simp

theorem blur_border_kept_witness:
  "has_shape 4 4 [[1, 2, 3, 4], [4, 5, 6, 7], [7, 8, 9, 10], [90, 100, 110, 120 :: int]]
   \<and> (\<exists>out. apply_blur [[1, 2, 3, 4], [4, 5, 6, 7], [7, 8, 9, 10], [90, 100, 110, 120]] None = Inr out
          \<and> out ! 0 ! 1 = 2 \<and> out ! 3 ! 2 = 110)
   \<and> apply_blur [[1, 2, 3, 4], [4, 5, 6, 7], [7, 8, 9, 10], [90, 100, 110, 120]] (Some (0, 0, 2, 2))
       = Inr [[37, 36, 3, 4], [5, 5, 6, 7], [7, 8, 9, 10], [90, 100, 110, 120]]
   \<and> [[37, 36, 3, 4], [5, 5, 6, 7], [7, 8, 9, 10], [90, 100, 110, 120 :: int]] ! 3 ! 3 = 120
   \<and> (\<exists>out. apply_blur [[1, 2, 3, 4], [4, 5, 6, 7], [7, 8, 9, 10], [90, 100, 110, 120]]
                (Some (0, 0, 2, 2)) = Inr out \<and> out ! 1 ! 2 = 6)"
proof -
  let ?img = "[[1, 2, 3, 4], [4, 5, 6, 7], [7, 8, 9, 10], [90, 100, 110, 120 :: int]]"
  let ?res = "[[37, 36, 3, 4], [5, 5, 6, 7], [7, 8, 9, 10], [90, 100, 110, 120 :: int]]"
  have sh: "has_shape 4 4 ?img" by (simp add: has_shape_def)
  note th = blur_border_kept [OF sh, of 0 0 2 2]
  from th obtain out where n: "apply_blur ?img None = Inr out"
    and border: "\<forall>i<4. \<forall>j<4. i = 0 \<or> i = 4 - 1 \<or> j = 0 \<or> j = 4 - 1
                  \<longrightarrow> out ! i ! j = ?img ! i ! j"
    by blast
  from border [rule_format, of 0 1] have "out ! 0 ! 1 = ?img ! 0 ! 1" by simp
  moreover from border [rule_format, of 3 2] have "out ! 3 ! 2 = ?img ! 3 ! 2" by simp
  ultimately have a: "\<exists>out. apply_blur ?img None = Inr out \<and> out ! 0 ! 1 = 2 \<and> out ! 3 ! 2 = 110"
    using n by simp
  have run: "apply_blur ?img (Some (0, 0, 2, 2)) = Inr ?res" by (rule blur_example)
  have untouched: "\<forall>i j. (0::int) \<le> i \<and> i < 0 + 2 \<and> (0::int) \<le> j \<and> j < 0 + 2
                      \<longrightarrow> \<not> (py_index 4 i = Inr 3 \<and> py_index 4 j = Inr 3)"
    by (auto simp: py_index_def)
  from th run have "\<forall>r<4. \<forall>c<4.
               (\<forall>i j. (0::int) \<le> i \<and> i < 0 + 2 \<and> (0::int) \<le> j \<and> j < 0 + 2
                      \<longrightarrow> \<not> (py_index 4 i = Inr r \<and> py_index 4 j = Inr c))
               \<longrightarrow> ?res ! r ! c = ?img ! r ! c"
    by blast
  from this [rule_format, of 3 3] untouched have "?res ! 3 ! 3 = ?img ! 3 ! 3" by simp
  then have b: "?res ! 3 ! 3 = 120" by simp
  from th obtain out2 where r2: "apply_blur ?img (Some (0, 0, 2, 2)) = Inr out2"
    and outside: "\<forall>r<4. \<forall>c<4.
                  \<not> (0 \<le> int r \<and> int r < 0 + 2 \<and> 0 \<le> int c \<and> int c < 0 + 2)
                  \<longrightarrow> out2 ! r ! c = ?img ! r ! c"
    by auto
  from outside [rule_format, of 1 2] have "out2 ! 1 ! 2 = ?img ! 1 ! 2" by simp
  with r2 have c: "\<exists>out. apply_blur ?img (Some (0, 0, 2, 2)) = Inr out \<and> out ! 1 ! 2 = 6"
    by simp
  from sh a run b c show ?thesis by blast
qed




subsection \<open>Resize to a target extent of 1\<close>

lemma py_int_bounds:
  assumes "0 \<le> x" "x \<le> real_of_int n"
  shows "0 \<le> py_int x" and "py_int x \<le> n"
proof -
  from assms(1) have p: "py_int x = \<lfloor>x\<rfloor>" by (simp add: py_int_def)
  show "0 \<le> py_int x" using assms(1) by (simp add: p)
  show "py_int x \<le> n" using assms(2) by (simp add: p floor_le_iff)
qed

lemma read2_nonneg:
  assumes "has_shape h w a" "0 \<le> i" "i < int h" "0 \<le> j" "j < int w"
  shows "read2 a i j = Inr (a ! nat i ! nat j)"
  using read2_index [OF assms(1) py_index_nonneg [OF assms(2,3)] py_index_nonneg [OF assms(4,5)]] .

lemma scaled_index_bounds:
  assumes "0 \<le> m" "0 \<le> k" "k \<le> d" "0 < d"
  shows "0 \<le> py_int (real_of_int (m * k) / real_of_int d)"
    and "py_int (real_of_int (m * k) / real_of_int d) \<le> m"
proof -
  let ?x = "real_of_int (m * k) / real_of_int d"
  have nn: "0 \<le> ?x" using assms by simp
  have "m * k \<le> m * d" using assms by (intro mult_left_mono) simp_all
  then have "real_of_int (m * k) \<le> real_of_int (m * d)" by (simp only: of_int_le_iff)
  then have "real_of_int (m * k) \<le> real_of_int m * real_of_int d" by simp
  then have le: "?x \<le> real_of_int m"
    using assms(4) by (simp add: divide_le_eq)
  from nn le show "0 \<le> py_int ?x" by (rule py_int_bounds)
  from nn le show "py_int ?x \<le> m" by (rule py_int_bounds)
qed

lemma next_index_bounds:
  "0 \<le> x \<Longrightarrow> x < n \<Longrightarrow>
     0 \<le> (if c then x else min (x + 1) (n - 1)) \<and> (if c then x else min (x + 1) (n - 1)) < (n::int)"
  by auto

lemma py_round_zero: "py_round 0 = 0"
  by (simp add: py_round_def)

text \<open>With a target extent of 1 the weights of all four corners are 0.\<close>

lemma resize_cell_degenerate:
  assumes sh: "has_shape h w a" and hw: "0 < h" "0 < w"
    and i: "0 \<le> i" "i < new_height" and j: "0 \<le> j" "j < new_width"
    and deg: "new_height = 1 \<or> new_width = 1"
  shows "resize_cell a (int h) (int w) new_height new_width i j = Inr 0"
proof -
  let ?xl = "if new_width > 1
             then py_int (real_of_int ((int w - 1) * j) / real_of_int (new_width - 1)) else 0"
  let ?yl = "if new_height > 1
             then py_int (real_of_int ((int h - 1) * i) / real_of_int (new_height - 1)) else 0"
  let ?xh = "if ?xl * (new_width - 1) = (int w - 1) * j then ?xl else min (?xl + 1) (int w - 1)"
  let ?yh = "if ?yl * (new_height - 1) = (int h - 1) * i then ?yl else min (?yl + 1) (int h - 1)"
  have xl: "0 \<le> ?xl \<and> ?xl < int w"
  proof (cases "new_width > 1")
    case True
    have "0 \<le> int w - 1" "0 \<le> j" "j \<le> new_width - 1" "0 < new_width - 1"
      using hw j True by simp_all
    note b = scaled_index_bounds [OF this]
    from b(2) have "py_int (real_of_int ((int w - 1) * j) / real_of_int (new_width - 1)) < int w"
      by linarith
    with b(1) True show ?thesis by (simp only: if_True simp_thms)
  next
    case False
    with hw show ?thesis by (simp only: if_False) simp
  qed
  have yl: "0 \<le> ?yl \<and> ?yl < int h"
  proof (cases "new_height > 1")
    case True
    have "0 \<le> int h - 1" "0 \<le> i" "i \<le> new_height - 1" "0 < new_height - 1"
      using hw i True by simp_all
    note b = scaled_index_bounds [OF this]
    from b(2) have "py_int (real_of_int ((int h - 1) * i) / real_of_int (new_height - 1)) < int h"
      by linarith
    with b(1) True show ?thesis by (simp only: if_True simp_thms)
  next
    case False
    with hw show ?thesis by (simp only: if_False) simp
  qed
  note xl1 = xl [THEN conjunct1] and xl2 = xl [THEN conjunct2]
  note yl1 = yl [THEN conjunct1] and yl2 = yl [THEN conjunct2]
  have xh: "0 \<le> ?xh \<and> ?xh < int w" using xl1 xl2 by (rule next_index_bounds)
  have yh: "0 \<le> ?yh \<and> ?yh < int h" using yl1 yl2 by (rule next_index_bounds)
  note xh1 = xh [THEN conjunct1] and xh2 = xh [THEN conjunct2]
  note yh1 = yh [THEN conjunct1] and yh2 = yh [THEN conjunct2]
  have r1: "read2 a ?yl ?xl = Inr (a ! nat ?yl ! nat ?xl)"
    using sh yl1 yl2 xl1 xl2 by (rule read2_nonneg)
  have r2: "read2 a ?yl ?xh = Inr (a ! nat ?yl ! nat ?xh)"
    using sh yl1 yl2 xh1 xh2 by (rule read2_nonneg)
  have r3: "read2 a ?yh ?xl = Inr (a ! nat ?yh ! nat ?xl)"
    using sh yh1 yh2 xl1 xl2 by (rule read2_nonneg)
  have r4: "read2 a ?yh ?xh = Inr (a ! nat ?yh ! nat ?xh)"
    using sh yh1 yh2 xh1 xh2 by (rule read2_nonneg)
  from deg show ?thesis
  proof
    assume nh: "new_height = 1"
    then have i0: "i = 0" using i by simp
    show ?thesis
      unfolding resize_cell_def Let_def
      by (simp only: r1 r2 r3 r4 ebind_Inr) (simp add: nh i0 py_round_zero uint8_def)
  next
    assume nw: "new_width = 1"
    then have j0: "j = 0" using j by simp
    show ?thesis
      unfolding resize_cell_def Let_def
      by (simp only: r1 r2 r3 r4 ebind_Inr) (simp add: nw j0 py_round_zero uint8_def)
  qed
qed

text \<open>
  C3 (what the code does): for every non-empty rectangular source and every target with
  positive extents one of which is 1, \<open>resize_image_bilinear\<close> returns without an error,
  and every cell of the result is 0.  The divisor is set to 1 for these targets, so the
  branch with the mean of the corners is never taken, and each corner has weight 0 in
  the weighted sum.  The claim's mean of the four corner samples is not what is returned.
\<close>

theorem resize_degenerate_zero:
  assumes "has_shape h w a" "0 < h" "0 < w" "0 < new_height" "0 < new_width"
    and "new_height = 1 \<or> new_width = 1"
  shows "resize_image_bilinear a new_height new_width
           = Inr (map (\<lambda>i. map (\<lambda>j. 0) [0..new_width - 1]) [0..new_height - 1])"
proof -
  have wd: "int (width_of a) = int w" "int (length a) = int h"
    using assms(1,2) by (simp_all add: width_of_shape has_shape_length)
  have row: "traverse (\<lambda>j. resize_cell a (int h) (int w) new_height new_width i j) [0..new_width - 1]
               = Inr (map (\<lambda>j. 0) [0..new_width - 1])"
    if "i \<in> set [0..new_height - 1]" for i
  proof (rule traverse_Inr)
    fix j assume "j \<in> set [0..new_width - 1]"
    with that have "0 \<le> i" "i < new_height" "0 \<le> j" "j < new_width" by simp_all
    with assms show "resize_cell a (int h) (int w) new_height new_width i j = Inr 0"
      by (intro resize_cell_degenerate)
  qed
  have "traverse (\<lambda>i. traverse (\<lambda>j. resize_cell a (int h) (int w) new_height new_width i j)
                   [0..new_width - 1]) [0..new_height - 1]
          = Inr (map (\<lambda>i. map (\<lambda>j. 0) [0..new_width - 1]) [0..new_height - 1])"
    by (rule traverse_Inr) (rule row)
  then show ?thesis
    using assms(4,5) by (simp add: resize_image_bilinear_def wd)
qed

theorem resize_degenerate_zero_witness:
  "has_shape 2 2 [[10, 20], [30, 40 :: int]]
   \<and> resize_image_bilinear [[10, 20], [30, 40]] 2 1 = Inr [[0], [0]]
   \<and> read2 [[10, 20], [30, 40 :: int]] 0 0 = Inr 10
   \<and> read2 [[10, 20], [30, 40 :: int]] 1 0 = Inr 30"
proof -
  have sh: "has_shape 2 2 [[10, 20], [30, 40 :: int]]" by (simp add: has_shape_def)
  have p: "(0::nat) < 2" "(0::int) < 2" "(0::int) < 1" "(2::int) = 1 \<or> (1::int) = 1"
    by simp_all
  from resize_degenerate_zero [OF sh p(1) p(1) p(2) p(3) p(4)]
  have "resize_image_bilinear [[10, 20], [30, 40]] 2 1
          = Inr (map (\<lambda>i. map (\<lambda>j. 0) [0..1 - 1]) [0..2 - 1])" .
  moreover have "map (\<lambda>i::int. map (\<lambda>j::int. 0::int) [0..1 - 1]) [0..2 - 1] = [[0], [0]]"
    by code_simp
  moreover have "read2 [[10, 20], [30, 40 :: int]] 0 0 = Inr 10"
    "read2 [[10, 20], [30, 40 :: int]] 1 0 = Inr 30"
    by code_simp+
  ultimately show ?thesis using sh by simp
qed

subsection \<open>Range of the output values\<close>

lemma resize_cell_range:
  "resize_cell a h w nh nw i j = Inr v \<Longrightarrow> in_range v"
  unfolding resize_cell_def Let_def ebind_eq_Inr
  by (auto simp: uint8_range)

lemma traverse2_range:
  assumes "traverse (\<lambda>i. traverse (f i) js) is = Inr out"
    and "\<And>i j v. f i j = Inr v \<Longrightarrow> P v"
  shows "list_all (list_all P) out"
  unfolding list_all_iff
proof (intro ballI)
  fix row v assume "row \<in> set out" "v \<in> set row"
  from traverse_set [OF assms(1) this(1)] obtain i where "traverse (f i) js = Inr row" by blast
  from traverse_set [OF this \<open>v \<in> set row\<close>] obtain j where "f i j = Inr v" by blast
  then show "P v" by (rule assms(2))
qed

lemma resize_image_bilinear_valid:
  assumes "resize_image_bilinear a nh nw = Inr out"
  shows "valid_gray out"
proof -
  from assms have "traverse (\<lambda>i. traverse (\<lambda>j.
                resize_cell a (int (length a)) (int (width_of a)) nh nw i j)
                [0..nw - 1]) [0..nh - 1] = Inr out"
    by (simp add: resize_image_bilinear_def split: if_splits)
  then show ?thesis
    unfolding valid_gray_def by (rule traverse2_range) (rule resize_cell_range)
qed

lemma mix_range: "in_range (mix wt a b c d)" "in_range (mix_uniform wt a b c d)"
  by (simp_all add: mix_def mix_uniform_def uint8_range)

lemma ebind_prod_eq_Inr:
  "ebind m (\<lambda>(x, y, z). f x y z) = Inr r \<longleftrightarrow> (\<exists>x y z. m = Inr (x, y, z) \<and> f x y z = Inr r)"
  by (cases m) auto

lemma resize_pixel_range:
  assumes "resize_pixel a special xr yr i j = Inr p"
  shows "case p of (r, g, b) \<Rightarrow> in_range r \<and> in_range g \<and> in_range b"
  using assms unfolding resize_pixel_def Let_def ebind_prod_eq_Inr
  by (auto simp: mix_range split: if_splits)

lemma resize_image_valid:
  assumes "resize_image a nh nw = Inr out"
  shows "valid_rgb out"
proof -
  from assms obtain xr yr where "traverse (\<lambda>i. traverse (\<lambda>j.
                   resize_pixel a (int (length a) = 720) xr yr i j)
                   [0..nw - 1]) [0..nh - 1] = Inr out"
    by (auto simp: resize_image_def Let_def split: if_splits)
  then show ?thesis
    unfolding valid_rgb_def by (rule traverse2_range) (rule resize_pixel_range)
qed

lemma clamp255_range: "in_range (clamp255 x)"
  by (simp add: clamp255_def in_range_def)

lemma conv2d_valid:
  assumes "conv2d a k wt = Inr out"
  shows "valid_gray out"
  using assms unfolding conv2d_def Let_def
  by (auto split: list.splits if_splits
        simp: valid_gray_def list_all_iff clamp255_range simp del: upt_Suc)

lemma dstack_valid:
  assumes "valid_gray rs" "valid_gray gs" "valid_gray bs"
  shows "valid_rgb (dstack rs gs bs)"
  unfolding valid_rgb_def list_all_iff
proof (intro ballI)
  fix row p assume row: "row \<in> set (dstack rs gs bs)" and p: "p \<in> set row"
  from row obtain r g b where rgb: "(r, g, b) \<in> set (zip rs (zip gs bs))"
    and rw: "row = zip r (zip g b)"
    by (auto simp: dstack_def)
  from rgb have "r \<in> set rs" "g \<in> set gs" "b \<in> set bs"
    by (auto dest: set_zip_leftD set_zip_rightD)
  with assms have v: "\<forall>x\<in>set r. in_range x" "\<forall>x\<in>set g. in_range x" "\<forall>x\<in>set b. in_range x"
    by (auto simp: valid_gray_def list_all_iff)
  obtain x y z where xyz: "p = (x, y, z)" by (cases p)
  with p rw have "x \<in> set r" "y \<in> set g" "z \<in> set b"
    by (auto dest: set_zip_leftD set_zip_rightD)
  with v xyz show "case p of (r, g, b) \<Rightarrow> in_range r \<and> in_range g \<and> in_range b"
    by simp
qed

lemma blur_image_valid:
  assumes "blur_image a = Inr out"
  shows "valid_rgb out"
proof -
  from assms obtain r g b where "conv2d (channel 0 a) ones3 9 = Inr r"
    "conv2d (channel 1 a) ones3 9 = Inr g" "conv2d (channel 2 a) ones3 9 = Inr b"
    and out: "out = dstack r g b"
    by (auto simp: blur_image_def split: sum.splits)
  then have "valid_gray r" "valid_gray g" "valid_gray b"
    by (simp_all add: conv2d_valid)
  then show ?thesis unfolding out by (rule dstack_valid)
qed

lemma rgb_to_grayscale_valid:
  "valid_gray (rgb_to_grayscale (RGBImage rgb_rows))"
  "valid_gray rows \<Longrightarrow> valid_gray (rgb_to_grayscale (GrayImage rows))"
  by (auto simp: rgb_to_grayscale_def valid_gray_def list_all_iff uint8_range)

lemma map_values_valid:
  assumes "\<And>v. in_range (f v)"
  shows "valid_image (map_values f img)"
  using assms
  by (cases img) (auto simp: valid_image_def map_values_def tolist_def list_all_iff)

lemma adjust_brightness_valid: "valid_image (adjust_brightness img f)"
  unfolding adjust_brightness_def by (rule map_values_valid) (rule uint8_range)

lemma adjust_contrast_valid: "valid_rgb (adjust_contrast a f)"
  by (auto simp: adjust_contrast_def Let_def valid_rgb_def list_all_iff uint8_range)

lemma py_slice_subset: "set (py_slice xs a b) \<subseteq> set xs"
  unfolding py_slice_def Let_def
  by (meson in_set_dropD in_set_takeD subsetI)

lemma apply_crop_valid:
  assumes "valid_gray a"
  shows "valid_gray (apply_crop a x y cw ch res)"
  unfolding valid_gray_def list_all_iff
proof (intro ballI)
  fix row v assume row: "row \<in> set (apply_crop a x y cw ch res)" and v: "v \<in> set row"
  from row obtain src y2 x2 where src: "src \<in> set (py_slice a y y2)"
    and r: "row = py_slice src x x2"
    by (auto simp: apply_crop_def Let_def split: prod.splits)
  from src have "src \<in> set a" by (rule py_slice_subset [THEN subsetD])
  moreover from v r have "v \<in> set src" by (simp add: py_slice_subset [THEN subsetD])
  ultimately show "in_range v" using assms by (auto simp: valid_gray_def list_all_iff)
qed

lemma clamp_examples:
  "resize_image_bilinear [[1, 2, 3, 4], [4, 5, 6, 7], [7, 8, 9, 10], [90, 100, 110, 120]] 2 3
     = Inr [[1, 2, 4], [90, 105, 120]]"
  "resize_image [[(10, 20, 30), (40, 50, 60), (70, 80, 90)],
                 [(100, 110, 120), (130, 140, 150), (160, 170, 180)],
                 [(190, 200, 210), (220, 230, 240), (250, 255, 0)]] 1 1
     = Inr [[(70, 80, 90)]]"
  "apply_blur [[1, 2, 3, 4], [4, 5, 6, 7], [7, 8, 9, 10], [90, 100, 110, 120]] None
     = Inr [[1, 2, 3, 4], [4, 5, 6, 7], [7, 38, 42, 10], [90, 100, 110, 120]]"
  "blur_image [[(10, 20, 30), (40, 50, 60), (70, 80, 90)],
               [(100, 110, 120), (130, 140, 150), (160, 170, 180)],
               [(190, 200, 210), (220, 230, 240), (250, 255, 0)]]
     = Inr [[(31, 35, 40), (56, 63, 70), (44, 48, 53)],
            [(76, 83, 90), (130, 139, 120), (96, 102, 80)],
            [(71, 75, 80), (116, 122, 100), (84, 88, 63)]]"
  by code_simp+

lemma clamp_examples2:
  "adjust_brightness (RGBImage [[(10, 20, 30), (40, 50, 60), (70, 80, 90)],
                 [(100, 110, 120), (130, 140, 150), (160, 170, 180)],
                 [(190, 200, 210), (220, 230, 240), (250, 255, 0)]]) 1000
     = RGBImage [[(255, 255, 255), (255, 255, 255), (255, 255, 255)],
                 [(255, 255, 255), (255, 255, 255), (255, 255, 255)],
                 [(255, 255, 255), (255, 255, 255), (255, 255, 0)]]"
  "adjust_contrast [[(10, 20, 30), (40, 50, 60), (70, 80, 90)],
                 [(100, 110, 120), (130, 140, 150), (160, 170, 180)],
                 [(190, 200, 210), (220, 230, 240), (250, 255, 0)]] 1000
     = [[(0, 0, 0), (0, 0, 0), (0, 0, 0)],
        [(0, 0, 0), (255, 255, 255), (255, 255, 255)],
        [(255, 255, 255), (255, 255, 255), (255, 255, 0)]]"
  "apply_crop [[1, 2, 3, 4], [4, 5, 6, 7], [7, 8, 9, 10], [90, 100, 110, 120]] 1 1 (Some 2) None SD
     = [[5, 6], [8, 9], [100, 110]]"
  by code_simp+

text \<open>
  C9: for buffers whose values lie in [0,255], every value of the output of each kernel
  lies in [0,255], whenever the kernel returns an output: the two resizes, the two box
  blurs, the grayscale conversion, brightness and contrast for any factor, and the crop
  of the raw-array family.  The hex-codec crop script computes no output buffer, and the
  hex-codec grayscale script takes its output from the imaging library.
\<close>

theorem clamp_invariant:
  assumes "valid_gray gray" and "valid_rgb rgb_rows"
  shows "(\<forall>out. resize_image_bilinear gray new_height new_width = Inr out \<longrightarrow> valid_gray out)
     \<and> (\<forall>out. resize_image rgb_rows new_height new_width = Inr out \<longrightarrow> valid_rgb out)
     \<and> (\<forall>out. apply_blur gray blur_region = Inr out \<longrightarrow> valid_gray out)
     \<and> (\<forall>out. blur_image rgb_rows = Inr out \<longrightarrow> valid_rgb out)
     \<and> valid_gray (rgb_to_grayscale (RGBImage rgb_rows))
     \<and> valid_gray (rgb_to_grayscale (GrayImage gray))
     \<and> valid_image (adjust_brightness (RGBImage rgb_rows) f)
     \<and> valid_image (adjust_brightness (GrayImage gray) f)
     \<and> valid_rgb (adjust_contrast rgb_rows f)
     \<and> valid_gray (apply_crop gray crop_x crop_y crop_width crop_height res)"
  using assms
  by (simp add: resize_image_bilinear_valid resize_image_valid apply_blur_valid
      blur_image_valid rgb_to_grayscale_valid adjust_brightness_valid adjust_contrast_valid
      apply_crop_valid)

theorem clamp_invariant_witness:
  "valid_gray [[1, 2, 3, 4], [4, 5, 6, 7], [7, 8, 9, 10], [90, 100, 110, 120]]
   \<and> valid_rgb [[(10, 20, 30), (40, 50, 60), (70, 80, 90)],
                [(100, 110, 120), (130, 140, 150), (160, 170, 180)],
                [(190, 200, 210), (220, 230, 240), (250, 255, 0)]]
   \<and> resize_image_bilinear [[1, 2, 3, 4], [4, 5, 6, 7], [7, 8, 9, 10], [90, 100, 110, 120]] 2 3
       = Inr [[1, 2, 4], [90, 105, 120]]
   \<and> valid_gray [[1, 2, 4], [90, 105, 120]]
   \<and> resize_image [[(10, 20, 30), (40, 50, 60), (70, 80, 90)],
                [(100, 110, 120), (130, 140, 150), (160, 170, 180)],
                [(190, 200, 210), (220, 230, 240), (250, 255, 0)]] 1 1
       = Inr [[(70, 80, 90)]]
   \<and> valid_rgb [[(70, 80, 90)]]
   \<and> apply_blur [[1, 2, 3, 4], [4, 5, 6, 7], [7, 8, 9, 10], [90, 100, 110, 120]] None
       = Inr [[1, 2, 3, 4], [4, 5, 6, 7], [7, 38, 42, 10], [90, 100, 110, 120]]
   \<and> valid_gray [[1, 2, 3, 4], [4, 5, 6, 7], [7, 38, 42, 10], [90, 100, 110, 120]]
   \<and> blur_image [[(10, 20, 30), (40, 50, 60), (70, 80, 90)],
                [(100, 110, 120), (130, 140, 150), (160, 170, 180)],
                [(190, 200, 210), (220, 230, 240), (250, 255, 0)]]
       = Inr [[(31, 35, 40), (56, 63, 70), (44, 48, 53)],
              [(76, 83, 90), (130, 139, 120), (96, 102, 80)],
              [(71, 75, 80), (116, 122, 100), (84, 88, 63)]]
   \<and> valid_rgb [[(31, 35, 40), (56, 63, 70), (44, 48, 53)],
                [(76, 83, 90), (130, 139, 120), (96, 102, 80)],
                [(71, 75, 80), (116, 122, 100), (84, 88, 63)]]
   \<and> valid_image (RGBImage [[(255, 255, 255), (255, 255, 255), (255, 255, 255)],
                 [(255, 255, 255), (255, 255, 255), (255, 255, 255)],
                 [(255, 255, 255), (255, 255, 255), (255, 255, 0)]])
   \<and> valid_rgb [[(0, 0, 0), (0, 0, 0), (0, 0, 0)],
        [(0, 0, 0), (255, 255, 255), (255, 255, 255)],
        [(255, 255, 255), (255, 255, 255), (255, 255, 0)]]
   \<and> valid_gray [[5, 6], [8, 9], [100, 110]]"
proof -
  let ?G = "[[1, 2, 3, 4], [4, 5, 6, 7], [7, 8, 9, 10], [90, 100, 110, 120 :: int]]"
  let ?R = "[[(10, 20, 30), (40, 50, 60), (70, 80, 90)],
                [(100, 110, 120), (130, 140, 150), (160, 170, 180)],
                [(190, 200, 210), (220, 230, 240), (250, 255, 0 :: int)]] :: rgb list list"
  have g: "valid_gray ?G" by (simp add: valid_gray_def in_range_def)
  have r: "valid_rgb ?R" by (simp add: valid_rgb_def in_range_def)
  note th = clamp_invariant [OF g r, of 2 3 None 1000 1 1 "Some 2" None SD]
  note th1 = clamp_invariant [OF g r, of 1 1 None 1000 1 1 "Some 2" None SD]
  from th clamp_examples(1) have a: "valid_gray [[1, 2, 4], [90, 105, 120]]" by blast
  from th1 clamp_examples(2) have b: "valid_rgb [[(70, 80, 90)]]" by blast
  from th clamp_examples(3)
  have c: "valid_gray [[1, 2, 3, 4], [4, 5, 6, 7], [7, 38, 42, 10], [90, 100, 110, 120]]"
    by blast
  from th clamp_examples(4)
  have d: "valid_rgb [[(31, 35, 40), (56, 63, 70), (44, 48, 53)],
                [(76, 83, 90), (130, 139, 120), (96, 102, 80)],
                [(71, 75, 80), (116, 122, 100), (84, 88, 63)]]"
    by blast
  from th have "valid_image (adjust_brightness (RGBImage ?R) 1000)" by blast
  then have e: "valid_image (RGBImage [[(255, 255, 255), (255, 255, 255), (255, 255, 255)],
                 [(255, 255, 255), (255, 255, 255), (255, 255, 255)],
                 [(255, 255, 255), (255, 255, 255), (255, 255, 0)]])"
    by (simp only: clamp_examples2(1))
  from th have "valid_rgb (adjust_contrast ?R 1000)" by blast
  then have f: "valid_rgb [[(0, 0, 0), (0, 0, 0), (0, 0, 0)],
        [(0, 0, 0), (255, 255, 255), (255, 255, 255)],
        [(255, 255, 255), (255, 255, 255), (255, 255, 0)]]"
    by (simp only: clamp_examples2(2))
  from th have "valid_gray (apply_crop ?G 1 1 (Some 2) None SD)" by blast
  then have h: "valid_gray [[5, 6], [8, 9], [100, 110]]"
    by (simp only: clamp_examples2(3))
  from g r clamp_examples a b c d e f h show ?thesis by (simp only: simp_thms)
qed

end
